theory Spec2Isabelle
  imports Complex_Main
begin

section \<open>Domain coloring: arrays, indexing and exceptions\<close>

text \<open>
  The module \<^verbatim>\<open>domain_coloring.py\<close> works on two-dimensional numpy arrays of
  hues and brightness values. An array is a list of rows here. The samples are
  double precision numbers in the source; the embedding takes them as real
  numbers, so that rounding, infinities and NaN are outside the model. The one
  exception is the brightness computed by \<^verbatim>\<open>colors\<close>, which is rounded as
  the program rounds it. Indices are Python integers.
\<close>

datatype py_error = IndexError | ZeroDivisionError | OverflowError

type_synonym grid = "real list list"
type_synonym rect = "(int \<times> int) \<times> (int \<times> int)"

text \<open>
  \<^verbatim>\<open>a[i]\<close>: an index below zero counts from the end, an index outside the
  array raises \<^verbatim>\<open>IndexError\<close>.
\<close>

definition item :: "'a list \<Rightarrow> int \<Rightarrow> py_error + 'a" where
  "item xs i =
     (if 0 \<le> i \<and> i < int (length xs) then Inr (xs ! nat i)
      else if i < 0 \<and> - int (length xs) \<le> i then Inr (xs ! nat (int (length xs) + i))
      else Inl IndexError)"

text \<open>\<^verbatim>\<open>a[y][x]\<close>: the row first, then the column.\<close>

definition at2 :: "'a list list \<Rightarrow> int \<Rightarrow> int \<Rightarrow> py_error + 'a" where
  "at2 a y x = (case item a y of Inl e \<Rightarrow> Inl e | Inr r \<Rightarrow> item r x)"

text \<open>\<^verbatim>\<open>a.shape\<close> of a two-dimensional array: (rows, columns).\<close>

definition shape :: "'a list list \<Rightarrow> int \<times> int" where
  "shape a = (int (length a), (case a of [] \<Rightarrow> 0 | r # _ \<Rightarrow> int (length r)))"

text \<open>A numpy array is rectangular: every row has the number of columns of the shape.\<close>

definition is_array :: "'a list list \<Rightarrow> bool" where
  "is_array a = (\<forall>r \<in> set a. int (length r) = snd (shape a))"

text \<open>\<^verbatim>\<open>range(lo, hi)\<close>: the integers from \<open>lo\<close> up to \<open>hi - 1\<close>.\<close>

definition range_py :: "int \<Rightarrow> int \<Rightarrow> int list" where
  "range_py lo hi = [lo..hi - 1]"

text \<open>
  A \<^verbatim>\<open>for\<close> loop over a list with a body that updates a state and may raise:
  the first exception ends the loop.
\<close>

fun for_each :: "'a list \<Rightarrow> ('a \<Rightarrow> 's \<Rightarrow> py_error + 's) \<Rightarrow> 's \<Rightarrow> py_error + 's" where
  "for_each [] body s = Inr s"
| "for_each (x # xs) body s =
     (case body x s of Inl e \<Rightarrow> Inl e | Inr s' \<Rightarrow> for_each xs body s')"

section \<open>The winding number of a rectangle\<close>

text \<open>
  \<^verbatim>\<open>_winding_path(val1, val2)\<close>. The local \<^verbatim>\<open>winding\<close> starts at 0 and is
  increased once, so the result is the increment.
\<close>

definition winding_path :: "real \<Rightarrow> real \<Rightarrow> real" where
  "winding_path val1 val2 =
     (let lim1 = 7 / 10; lim2 = 3 / 10 in
      if val2 > lim1 then
        (if val1 < lim2 then 1 + val1 - val2 else val1 - val2)
      else if val2 < lim2 then
        (if val1 > lim1 then - 1 + val1 - val2 else val1 - val2)
      else val1 - val2)"

text \<open>Python 3 \<^verbatim>\<open>round\<close>: to the nearest integer, a tie to the even one.\<close>

definition py_round :: "real \<Rightarrow> int" where
  "py_round x =
     (let f = \<lfloor>x\<rfloor>; d = x - of_int f in
      if d < 1 / 2 then f
      else if d > 1 / 2 then f + 1
      else if even f then f else f + 1)"

text \<open>The two statements of the first loop of \<^verbatim>\<open>winding_num\<close>, at column \<open>i\<close>.\<close>

definition wind_rows :: "grid \<Rightarrow> int \<Rightarrow> int \<Rightarrow> int \<Rightarrow> real \<Rightarrow> py_error + real" where
  "wind_rows hue y1 y2 i w =
     (case at2 hue y2 (i + 1) of Inl e \<Rightarrow> Inl e | Inr a \<Rightarrow>
     (case at2 hue y2 i of Inl e \<Rightarrow> Inl e | Inr b \<Rightarrow>
     (case at2 hue y1 i of Inl e \<Rightarrow> Inl e | Inr c \<Rightarrow>
     (case at2 hue y1 (i + 1) of Inl e \<Rightarrow> Inl e | Inr d \<Rightarrow>
        Inr (w + winding_path a b + winding_path c d)))))"

text \<open>The two statements of the second loop, at row \<open>j\<close>.\<close>

definition wind_cols :: "grid \<Rightarrow> int \<Rightarrow> int \<Rightarrow> int \<Rightarrow> real \<Rightarrow> py_error + real" where
  "wind_cols hue x1 x2 j w =
     (case at2 hue j x2 of Inl e \<Rightarrow> Inl e | Inr a \<Rightarrow>
     (case at2 hue (j + 1) x2 of Inl e \<Rightarrow> Inl e | Inr b \<Rightarrow>
     (case at2 hue (j + 1) x1 of Inl e \<Rightarrow> Inl e | Inr c \<Rightarrow>
     (case at2 hue j x1 of Inl e \<Rightarrow> Inl e | Inr d \<Rightarrow>
        Inr (w + winding_path a b + winding_path c d)))))"

text \<open>The corners of a rectangle in increasing order, as \<^verbatim>\<open>winding_num\<close> swaps them.\<close>

definition normalize :: "rect \<Rightarrow> rect" where
  "normalize r =
     (case r of ((x1, y1), (x2, y2)) \<Rightarrow>
        ((if x1 > x2 then x2 else x1, if y1 > y2 then y2 else y1),
         (if x1 > x2 then x1 else x2, if y1 > y2 then y1 else y2)))"

definition winding_sum :: "grid \<Rightarrow> rect \<Rightarrow> py_error + real" where
  "winding_sum hue r =
     (case normalize r of ((x1, y1), (x2, y2)) \<Rightarrow>
        (case for_each (range_py x1 x2) (wind_rows hue y1 y2) 0 of
           Inl e \<Rightarrow> Inl e
         | Inr w \<Rightarrow> for_each (range_py y1 y2) (wind_cols hue x1 x2) w))"

definition winding_num :: "grid \<Rightarrow> rect \<Rightarrow> py_error + int" where
  "winding_num hue r =
     (case winding_sum hue r of Inl e \<Rightarrow> Inl e | Inr w \<Rightarrow> Inr (py_round w))"

section \<open>Locating the zeros\<close>

text \<open>\<^verbatim>\<open>int(np.ceil(n / 2))\<close> for an integer \<open>n\<close>.\<close>

definition ceil_half :: "int \<Rightarrow> int" where
  "ceil_half n = \<lceil>real_of_int n / 2\<rceil>"

text \<open>
  \<^verbatim>\<open>if value[j][i] < tol: zero_index.add((i, j))\<close>. The set of indices is
  passed along and returned.
\<close>

definition mark :: "grid \<Rightarrow> real \<Rightarrow> int \<Rightarrow> int \<Rightarrow> (int \<times> int) set \<Rightarrow> py_error + (int \<times> int) set" where
  "mark value tol j i zs =
     (case at2 value j i of Inl e \<Rightarrow> Inl e
      | Inr v \<Rightarrow> Inr (if v < tol then insert (i, j) zs else zs))"

text \<open>The two nested loops of the base case of \<^verbatim>\<open>_calc_zeros\<close>.\<close>

definition scan_cell ::
  "grid \<Rightarrow> real \<Rightarrow> int \<Rightarrow> int \<Rightarrow> int \<Rightarrow> int \<Rightarrow> (int \<times> int) set \<Rightarrow> py_error + (int \<times> int) set" where
  "scan_cell value tol x1 y1 x2 y2 zs =
     for_each (range_py x1 x2)
       (\<lambda>i. for_each (range_py y1 y2) (\<lambda>j. mark value tol j i)) zs"

text \<open>The two loops over the edges, run when the winding number is 0.\<close>

definition scan_edges ::
  "grid \<Rightarrow> real \<Rightarrow> int \<Rightarrow> int \<Rightarrow> int \<Rightarrow> int \<Rightarrow> (int \<times> int) set \<Rightarrow> py_error + (int \<times> int) set" where
  "scan_edges value tol x1 y1 x2 y2 zs =
     (case for_each (range_py x1 x2)
             (\<lambda>i zs. (case mark value tol y1 i zs of Inl e \<Rightarrow> Inl e
                      | Inr zs' \<Rightarrow> mark value tol y2 i zs')) zs of
        Inl e \<Rightarrow> Inl e
      | Inr zs1 \<Rightarrow>
          for_each (range_py y1 y2)
            (\<lambda>j zs. (case mark value tol j x1 zs of Inl e \<Rightarrow> Inl e
                     | Inr zs' \<Rightarrow> mark value tol j x2 zs')) zs1)"

text \<open>
  \<^verbatim>\<open>_calc_zeros(hue, value, rect, zero_index, tol)\<close>. The second component of
  the result is the run's outcome: the exception it raised or the set of
  indices it leaves in \<^verbatim>\<open>zero_index\<close>. The first component records the run: the
  rectangles that were handed to \<^verbatim>\<open>winding_num\<close>, in the order of the calls.
\<close>

function calc_zeros ::
  "grid \<Rightarrow> grid \<Rightarrow> rect \<Rightarrow> (int \<times> int) set \<Rightarrow> real \<Rightarrow> rect list \<times> (py_error + (int \<times> int) set)" where
  "calc_zeros hue value ((x1, y1), (x2, y2)) zs tol =
     (if y2 - y1 \<le> 3 \<and> x2 - x1 \<le> 3 then ([], scan_cell value tol x1 y1 x2 y2 zs)
      else
        (case winding_num hue ((x1, y1), (x2, y2)) of
           Inl e \<Rightarrow> ([((x1, y1), (x2, y2))], Inl e)
         | Inr w \<Rightarrow>
             if w = 0 then ([((x1, y1), (x2, y2))], scan_edges value tol x1 y1 x2 y2 zs)
             else if y2 - y1 < x2 - x1 then
               (case calc_zeros hue value ((x1, y1), (ceil_half (x2 + x1), y2)) zs tol of
                  (t1, Inl e) \<Rightarrow> (((x1, y1), (x2, y2)) # t1, Inl e)
                | (t1, Inr zs1) \<Rightarrow>
                    (case calc_zeros hue value ((ceil_half (x2 + x1), y1), (x2, y2)) zs1 tol of
                       (t2, res) \<Rightarrow> (((x1, y1), (x2, y2)) # t1 @ t2, res)))
             else
               (case calc_zeros hue value ((x1, y1), (x2, ceil_half (y2 + y1))) zs tol of
                  (t1, Inl e) \<Rightarrow> (((x1, y1), (x2, y2)) # t1, Inl e)
                | (t1, Inr zs1) \<Rightarrow>
                    (case calc_zeros hue value ((x1, ceil_half (y1 + y2)), (x2, y2)) zs1 tol of
                       (t2, res) \<Rightarrow> (((x1, y1), (x2, y2)) # t1 @ t2, res)))))"
  by pat_completeness auto
termination
proof (relation "measure (\<lambda>(hue, value, ((x1, y1), (x2, y2)), zs, tol). nat (x2 - x1) + nat (y2 - y1))")
  have half: "ceil_half n = (n + 1) div 2" for n
    unfolding ceil_half_def by linarith
  show "wf (measure (\<lambda>(hue, value, ((x1, y1), (x2, y2)), zs, tol). nat (x2 - x1) + nat (y2 - y1)))"
    by simp
  fix h v :: grid and x1 y1 x2 y2 :: int and zs :: "(int \<times> int) set" and tol :: real
  assume big: "\<not> (y2 - y1 \<le> 3 \<and> x2 - x1 \<le> 3)"
  {
    assume wide: "y2 - y1 < x2 - x1"
    from big wide have "4 \<le> x2 - x1" by linarith
    then have "nat (ceil_half (x2 + x1) - x1) < nat (x2 - x1)"
      and "nat (x2 - ceil_half (x2 + x1)) < nat (x2 - x1)"
      unfolding half by linarith+
    then show "((h, v, ((x1, y1), (ceil_half (x2 + x1), y2)), zs, tol),
                (h, v, ((x1, y1), (x2, y2)), zs, tol))
               \<in> measure (\<lambda>(hue, value, ((x1, y1), (x2, y2)), zs, tol). nat (x2 - x1) + nat (y2 - y1))"
      and "\<And>zs1. ((h, v, ((ceil_half (x2 + x1), y1), (x2, y2)), zs1, tol),
                (h, v, ((x1, y1), (x2, y2)), zs, tol))
               \<in> measure (\<lambda>(hue, value, ((x1, y1), (x2, y2)), zs, tol). nat (x2 - x1) + nat (y2 - y1))"
      by simp_all
  }
  {
    assume tall: "\<not> y2 - y1 < x2 - x1"
    from big tall have "4 \<le> y2 - y1" by linarith
    then have "nat (ceil_half (y2 + y1) - y1) < nat (y2 - y1)"
      and "nat (y2 - ceil_half (y1 + y2)) < nat (y2 - y1)"
      unfolding half by linarith+
    then show "((h, v, ((x1, y1), (x2, ceil_half (y2 + y1))), zs, tol),
                (h, v, ((x1, y1), (x2, y2)), zs, tol))
               \<in> measure (\<lambda>(hue, value, ((x1, y1), (x2, y2)), zs, tol). nat (x2 - x1) + nat (y2 - y1))"
      and "\<And>zs1. ((h, v, ((x1, ceil_half (y1 + y2)), (x2, y2)), zs1, tol),
                (h, v, ((x1, y1), (x2, y2)), zs, tol))
               \<in> measure (\<lambda>(hue, value, ((x1, y1), (x2, y2)), zs, tol). nat (x2 - x1) + nat (y2 - y1))"
      by simp_all
  }
qed

text \<open>
  The rectangle \<^verbatim>\<open>zeros\<close> starts from: the whole array when none is given,
  the given corners in increasing order otherwise.
\<close>

definition start_rect :: "grid \<Rightarrow> rect option \<Rightarrow> rect" where
  "start_rect hue rect =
     (case rect of
        None \<Rightarrow> (case shape hue of (row, col) \<Rightarrow> ((0, 0), (col - 1, row - 1)))
      | Some r \<Rightarrow> normalize r)"

text \<open>
  \<^verbatim>\<open>zeros(hue, value, re_range, im_range, rect, tol)\<close>. Python does not fix the
  order in which a set is iterated; \<open>order\<close> is that order, and both results
  follow it, the set being unchanged between the loop and \<^verbatim>\<open>list(zero_index)\<close>.
\<close>

definition zeros ::
  "((int \<times> int) set \<Rightarrow> (int \<times> int) list) \<Rightarrow> grid \<Rightarrow> grid \<Rightarrow> real \<times> real \<Rightarrow> real \<times> real \<Rightarrow>
     rect option \<Rightarrow> real \<Rightarrow> py_error + (complex list \<times> (int \<times> int) list)" where
  "zeros order hue value re_range im_range rect tol =
     (case shape hue of (row, col) \<Rightarrow>
        (case snd (calc_zeros hue value (start_rect hue rect) {} tol) of
           Inl e \<Rightarrow> Inl e
         | Inr zero_index \<Rightarrow>
             if row - 1 = 0 then Inl ZeroDivisionError
             else
               (let step = (snd re_range - fst re_range) / of_int (row - 1) in
                Inr (map (\<lambda>(col, row).
                            Complex (fst re_range + of_int col * step)
                                    (fst im_range + of_int row * step))
                         (order zero_index),
                     order zero_index))))"

section \<open>Zooming in on the zeros\<close>

text \<open>
  The loop of \<^verbatim>\<open>_brightness\<close>, from the position \<open>(x, y)\<close> with the counter
  \<open>diff\<close> and the last brightness read, \<open>light\<close>. The \<^verbatim>\<open>IndexError\<close> of a
  read outside the array and the one raised at a negative position are caught
  by the function, which returns \<^verbatim>\<open>None\<close> then.
\<close>

function brightness_walk ::
  "grid \<Rightarrow> real \<Rightarrow> bool \<Rightarrow> bool \<Rightarrow> int \<Rightarrow> int \<Rightarrow> int \<Rightarrow> real \<Rightarrow> int option" where
  "brightness_walk value light_val x_val max_val x y diff light =
     (if light < light_val then
        (case at2 value y x of
           Inl e \<Rightarrow> None
         | Inr l \<Rightarrow>
             (let x' = (if max_val then (if x_val then x + 1 else x)
                        else (if x_val then x - 1 else x));
                  y' = (if max_val then (if x_val then y else y + 1)
                        else (if x_val then y else y - 1))
              in if x' < 0 \<or> y' < 0 then None
                 else brightness_walk value light_val x_val max_val x' y' (diff + 1) l))
      else Some diff)"
  by pat_completeness auto
termination
proof (relation "measure (\<lambda>(value, light_val, x_val, max_val, x, y, diff, light).
    if max_val then
      (if x_val then (case item value y of Inl e \<Rightarrow> 0 | Inr r \<Rightarrow> nat (int (length r) - x))
       else nat (int (length value) - y))
    else (if x_val then nat (x + 1) else nat (y + 1)))")
  show "wf (measure (\<lambda>(value, light_val, x_val, max_val, x, y, diff, light).
    if max_val then
      (if x_val then (case item value y of Inl e \<Rightarrow> 0 | Inr r \<Rightarrow> nat (int (length r) - x))
       else nat (int (length value) - y))
    else (if x_val then nat (x + 1) else nat (y + 1))))"
    by simp
  fix v :: grid and light_val :: real and x_val max_val :: bool and x y diff :: int
    and light l :: real and x' y' :: int
  assume rd: "at2 v y x = Inr l"
    and x': "x' = (if max_val then if x_val then x + 1 else x else if x_val then x - 1 else x)"
    and y': "y' = (if max_val then if x_val then y else y + 1 else if x_val then y else y - 1)"
    and pos: "\<not> (x' < 0 \<or> y' < 0)"
  from rd obtain r where r: "item v y = Inr r" "item r x = Inr l"
    by (auto simp add: at2_def split: sum.splits)
  have xb: "x < int (length r)" and yb: "y < int (length v)"
    using r by (auto simp add: item_def split: if_splits)
  show "((v, light_val, x_val, max_val, x', y', diff + 1, l),
         (v, light_val, x_val, max_val, x, y, diff, light))
        \<in> measure (\<lambda>(value, light_val, x_val, max_val, x, y, diff, light).
    if max_val then
      (if x_val then (case item value y of Inl e \<Rightarrow> 0 | Inr r \<Rightarrow> nat (int (length r) - x))
       else nat (int (length value) - y))
    else (if x_val then nat (x + 1) else nat (y + 1)))"
    using x' y' pos r xb yb by (auto split: if_splits)
qed

text \<open>\<^verbatim>\<open>_brightness(value, x, y, light_val, x_val, max_val)\<close>.\<close>

definition brightness :: "grid \<Rightarrow> int \<Rightarrow> int \<Rightarrow> real \<Rightarrow> bool \<Rightarrow> bool \<Rightarrow> int option" where
  "brightness value x y light_val x_val max_val =
     brightness_walk value light_val x_val max_val x y 0 0"

text \<open>
  One round of the loop \<^verbatim>\<open>for y, x in zero_index[1:]\<close> on the four extremes
  \<open>(x_max, x_min, y_max, y_min)\<close>.
\<close>

definition box_step :: "int \<times> int \<Rightarrow> int \<times> int \<times> int \<times> int \<Rightarrow> int \<times> int \<times> int \<times> int" where
  "box_step p b =
     (case p of (y, x) \<Rightarrow>
      (case b of (x_max, x_min, y_max, y_min) \<Rightarrow>
        (if x > x_max then x else x_max,
         if x > x_max then x_min else if x < x_min then x else x_min,
         if y > y_max then y else y_max,
         if y > y_max then y_min else if y < y_min then y else y_min)))"

text \<open>The extremes \<open>(x_max, x_min, y_max, y_min)\<close> of a list that starts with \<open>z\<close>.\<close>

definition bounding_box :: "int \<times> int \<Rightarrow> (int \<times> int) list \<Rightarrow> int \<times> int \<times> int \<times> int" where
  "bounding_box z rest = fold box_step rest (fst z, fst z, snd z, snd z)"

text \<open>The four walks, in the order \<open>diff_x_min, diff_y_min, diff_x_max, diff_y_max\<close>.\<close>

definition walks ::
  "grid \<Rightarrow> real \<Rightarrow> int \<times> int \<times> int \<times> int \<Rightarrow> int option \<times> int option \<times> int option \<times> int option" where
  "walks value light_val b =
     (case b of (x_max, x_min, y_max, y_min) \<Rightarrow>
        (brightness value x_min y_min light_val True False,
         brightness value x_max y_min light_val False False,
         brightness value x_max y_max light_val True True,
         brightness value x_min y_max light_val False True))"

text \<open>
  \<^verbatim>\<open>zoom_fit_zero(zero_index, value, re_range, im_range, step, light_val)\<close>.
  The two divisions raise \<^verbatim>\<open>ZeroDivisionError\<close> on a divisor 0.
\<close>

definition zoom_fit_zero ::
  "(int \<times> int) list \<Rightarrow> grid \<Rightarrow> real \<times> real \<Rightarrow> real \<times> real \<Rightarrow> real \<Rightarrow> real \<Rightarrow>
     py_error + ((real \<times> real) \<times> (real \<times> real) \<times> real)" where
  "zoom_fit_zero zero_index value re_range im_range step light_val =
     (case zero_index of
        [] \<Rightarrow> Inr (re_range, im_range, step)
      | z # rest \<Rightarrow>
          (case bounding_box z rest of (x_max, x_min, y_max, y_min) \<Rightarrow>
            (case walks value light_val (x_max, x_min, y_max, y_min) of
               (Some diff_x_min, Some diff_y_min, Some diff_x_max, Some diff_y_max) \<Rightarrow>
                 if step = 0 then Inl ZeroDivisionError
                 else
                   (let num_re_step = (snd re_range - fst re_range) / step;
                        row = fst (shape value);
                        col = snd (shape value);
                        lower_bound_re = fst re_range + of_int (x_min - diff_x_min + 1) * step;
                        upper_bound_re = snd re_range - of_int (col - x_max - diff_x_max) * step;
                        lower_bound_im = fst im_range + of_int (y_min - diff_y_min + 1) * step;
                        upper_bound_im = snd im_range - of_int (row - y_max - diff_y_max) * step
                    in if num_re_step = 0 then Inl ZeroDivisionError
                       else Inr ((lower_bound_re, upper_bound_re),
                                 (lower_bound_im, upper_bound_im),
                                 (upper_bound_re - lower_bound_re) / num_re_step))
             | _ \<Rightarrow> Inr (re_range, im_range, step))))"

section \<open>Branch cuts\<close>

text \<open>
  The body of the two loops of \<^verbatim>\<open>branch_cut\<close> on one pair of samples: the
  hues \<open>h1, h2\<close> and the brightness values \<open>v1, v2\<close> on the two lines, each the
  outcome of its read. The hues are both read before anything is compared;
  the second brightness is read only when the first is above the tolerance.
\<close>

definition branch_at ::
  "py_error + real \<Rightarrow> py_error + real \<Rightarrow> py_error + real \<Rightarrow> py_error + real \<Rightarrow> py_error + bool" where
  "branch_at h1 h2 v1 v2 =
     (let branch_lim = 4 / 10; lim1 = 9 / 10; lim2 = 1 / 10; tol = 2 / 10 in
      (case h1 of Inl e \<Rightarrow> Inl e | Inr a \<Rightarrow>
      (case h2 of Inl e \<Rightarrow> Inl e | Inr b \<Rightarrow>
         (let first_con = (a > lim1 \<and> b < lim2);
              second_con = (b > lim1 \<and> a < lim2)
          in if \<not> (first_con \<or> second_con) then
               (case v1 of Inl e \<Rightarrow> Inl e | Inr c \<Rightarrow>
                  if c > tol then
                    (case v2 of Inl e \<Rightarrow> Inl e | Inr d \<Rightarrow>
                       if d > tol then Inr (\<bar>a - b\<bar> > branch_lim) else Inr False)
                  else Inr False)
             else Inr False))))"

text \<open>A loop that returns \<^verbatim>\<open>True\<close> at the first index where the test holds.\<close>

fun probe :: "(int \<Rightarrow> py_error + bool) \<Rightarrow> int list \<Rightarrow> py_error + bool" where
  "probe test [] = Inr False"
| "probe test (i # rest) =
     (case test i of Inl e \<Rightarrow> Inl e
      | Inr found \<Rightarrow> if found then Inr True else probe test rest)"

text \<open>
  The two lines beside an axis: \<^verbatim>\<open>int(np.ceil(np.abs(lo)/step) - deviation)\<close>
  and the same with \<^verbatim>\<open>+ deviation\<close>, the deviation being 2.
\<close>

definition beside_axis :: "real \<Rightarrow> real \<Rightarrow> int \<times> int" where
  "beside_axis lo step = (\<lceil>\<bar>lo\<bar> / step\<rceil> - 2, \<lceil>\<bar>lo\<bar> / step\<rceil> + 2)"

text \<open>
  \<^verbatim>\<open>branch_cut(hue, value, re_range, im_range, step)\<close>. With a step 0 the
  quotient is infinite in numpy and its conversion to an integer raises
  \<^verbatim>\<open>OverflowError\<close>.
\<close>

definition branch_cut ::
  "grid \<Rightarrow> grid \<Rightarrow> real \<times> real \<Rightarrow> real \<times> real \<Rightarrow> real \<Rightarrow> py_error + bool" where
  "branch_cut hue value re_range im_range step =
     (let row = fst (shape hue);
          col = snd (shape hue);
          re_axis_in = (fst im_range < 0 \<and> 0 < snd im_range);
          im_axis_in = (fst re_range < 0 \<and> 0 < snd re_range)
      in if \<not> (re_axis_in \<or> im_axis_in) then Inr False
         else
           (case (if re_axis_in then
                    (if step = 0 then Inl OverflowError
                     else
                       (case beside_axis (fst im_range) step of (y_zero1, y_zero2) \<Rightarrow>
                          probe (\<lambda>i. branch_at (at2 hue y_zero1 i) (at2 hue y_zero2 i)
                                                (at2 value y_zero1 i) (at2 value y_zero2 i))
                                (range_py 0 col)))
                  else Inr False) of
              Inl e \<Rightarrow> Inl e
            | Inr found \<Rightarrow>
                if found then Inr True
                else if im_axis_in then
                  (if step = 0 then Inl OverflowError
                   else
                     (case beside_axis (fst re_range) step of (x_zero1, x_zero2) \<Rightarrow>
                        probe (\<lambda>j. branch_at (at2 hue j x_zero1) (at2 hue j x_zero2)
                                              (at2 value j x_zero1) (at2 value j x_zero2))
                              (range_py 0 row)))
                else Inr False))"

section \<open>Colors\<close>

text \<open>The remainder \<^verbatim>\<open>x % y\<close> of Python: it has the sign of \<open>y\<close>.\<close>

definition py_mod :: "real \<Rightarrow> real \<Rightarrow> real" where
  "py_mod x y = x - y * of_int \<lfloor>x / y\<rfloor>"

text \<open>
  Double precision (IEEE 754 binary64, rounding to nearest, a tie to the even
  neighbour). A number \<open>x\<close> other than 0 with \<open>2 ^ e \<le> |x| < 2 ^ (e + 1)\<close> is
  rounded to a multiple of \<open>2 ^ (e - 52)\<close>, and below \<open>2 ^ (- 1022)\<close> to a
  multiple of \<open>2 ^ (- 1074)\<close>. Infinities and NaN are not represented: a result
  beyond the largest double stays finite here.
\<close>

definition binade :: "real \<Rightarrow> int" where
  "binade x = max \<lfloor>log 2 \<bar>x\<bar>\<rfloor> (- 1022)"

definition ulp :: "real \<Rightarrow> real" where
  "ulp x = 2 powi (binade x - 52)"

definition to_double :: "real \<Rightarrow> real" where
  "to_double x = (if x = 0 then 0 else sgn x * of_int (py_round (\<bar>x\<bar> / ulp x)) * ulp x)"

text \<open>\<^verbatim>\<open>np.pi\<close>, the double \<open>3.141592653589793\<close>.\<close>

definition np_pi :: real where
  "np_pi = 884279719003555 / 2 ^ 48"

text \<open>
  \<^verbatim>\<open>colors(func_val)\<close>, one sample at a time: \<^verbatim>\<open>np.angle\<close> is the argument in
  \<open>(- pi, pi]\<close>, 0 at 0, and \<^verbatim>\<open>np.absolute\<close> the modulus. The hue is taken in
  exact arithmetic. The brightness \<^verbatim>\<open>2/np.pi * np.arctan(np.absolute(func_val))\<close>
  is computed in double precision, operation by operation: the division
  \<^verbatim>\<open>2/np.pi\<close>, the modulus, the arc tangent and the product each give the
  double nearest to the exact result of the operation on its operands.
\<close>

definition hue_of :: "complex \<Rightarrow> real" where
  "hue_of z = py_mod (Arg z + 2 * pi) (2 * pi) / (2 * pi)"

definition value_of :: "complex \<Rightarrow> real" where
  "value_of z = to_double (to_double (2 / np_pi) * to_double (arctan (to_double (cmod z))))"

definition colors :: "complex list list \<Rightarrow> grid \<times> grid" where
  "colors func_val = (map (map hue_of) func_val, map (map value_of) func_val)"

section \<open>Sampling a function\<close>

text \<open>
  \<^verbatim>\<open>np.arange(start, stop, step)\<close>: \<open>ceil((stop - start) / step)\<close> values
  \<open>start + k * step\<close>.
\<close>

definition arange :: "real \<Rightarrow> real \<Rightarrow> real \<Rightarrow> real list" where
  "arange start stop step =
     map (\<lambda>k. start + real k * step) [0..<nat \<lceil>(stop - start) / step\<rceil>]"

text \<open>
  \<^verbatim>\<open>func_grid(func, re_range, im_range, step)\<close>: the row index runs over the
  imaginary parts from \<open>im_range[1]\<close> downwards, the column index over the real
  parts from \<open>re_range[0]\<close> upwards, and \<open>func\<close> is applied to every point. A
  step 0 raises in \<^verbatim>\<open>np.arange\<close>. The replacement of the samples with an
  infinite real part by 0 changes nothing on finite samples.
\<close>

definition func_grid ::
  "(complex \<Rightarrow> complex) \<Rightarrow> real \<times> real \<Rightarrow> real \<times> real \<Rightarrow> real \<Rightarrow> py_error + complex list list" where
  "func_grid func re_range im_range step =
     (if step = 0 then Inl ZeroDivisionError
      else
        (let re_points = arange (fst re_range) (snd re_range + step) step;
             im_points = arange (snd im_range) (fst im_range - step) (- step)
         in Inr (map (\<lambda>im. map (\<lambda>re. func (Complex re im)) re_points) im_points)))"

text \<open>
  The steps of a case of \<^verbatim>\<open>test_winding\<close> in \<^verbatim>\<open>domain_coloring_test.py\<close>:
  the function is sampled on \<open>[-10, 10] \<times> [-10, 10]\<close> with the step 0.1, the
  samples are colored and the winding number of the hues is taken on \<open>rect\<close>.
\<close>

definition winding_test :: "(complex \<Rightarrow> complex) \<Rightarrow> rect \<Rightarrow> py_error + int" where
  "winding_test func rect =
     (case func_grid func (- 10, 10) (- 10, 10) (1 / 10) of
        Inl e \<Rightarrow> Inl e
      | Inr result \<Rightarrow> winding_num (fst (colors result)) rect)"

section \<open>Notions used in the statements\<close>

text \<open>The sample at column \<open>i\<close> of row \<open>j\<close> can be read.\<close>

definition readable :: "grid \<Rightarrow> int \<Rightarrow> int \<Rightarrow> bool" where
  "readable value i j = (case at2 value j i of Inl e \<Rightarrow> False | Inr b \<Rightarrow> True)"

text \<open>The sample at column \<open>i\<close> of row \<open>j\<close> can be read and is below \<open>tol\<close>.\<close>

definition below :: "grid \<Rightarrow> real \<Rightarrow> int \<Rightarrow> int \<Rightarrow> bool" where
  "below value tol i j = (case at2 value j i of Inl e \<Rightarrow> False | Inr b \<Rightarrow> b < tol)"

text \<open>What one test of a sample adds to the set of indices.\<close>

definition hit :: "grid \<Rightarrow> real \<Rightarrow> int \<Rightarrow> int \<Rightarrow> (int \<times> int) set" where
  "hit value tol i j = (if below value tol i j then {(i, j)} else {})"

text \<open>The index \<open>p = (column, row)\<close> lies between the corners of the rectangle.\<close>

definition in_box :: "rect \<Rightarrow> int \<times> int \<Rightarrow> bool" where
  "in_box r p =
     (case r of ((x1, y1), (x2, y2)) \<Rightarrow>
        min x1 x2 \<le> fst p \<and> fst p \<le> max x1 x2 \<and> min y1 y2 \<le> snd p \<and> snd p \<le> max y1 y2)"

text \<open>The span of a rectangle along the columns and along the rows.\<close>

definition span_x :: "rect \<Rightarrow> int" where
  "span_x r = fst (snd r) - fst (fst r)"

definition span_y :: "rect \<Rightarrow> int" where
  "span_y r = snd (snd r) - snd (fst r)"

text \<open>
  One of the four walks of \<^verbatim>\<open>zoom_fit_zero\<close> on a list of indices that is not
  empty returns \<^verbatim>\<open>None\<close>: a read fell outside the array, or the position
  became negative (which is tested after the move and before the brightness
  just read is compared again).
\<close>

definition walk_fails :: "grid \<Rightarrow> real \<Rightarrow> (int \<times> int) list \<Rightarrow> bool" where
  "walk_fails value light_val zero_index =
     (case zero_index of
        [] \<Rightarrow> False
      | z # rest \<Rightarrow>
          (case walks value light_val (bounding_box z rest) of
             (Some a, Some b, Some c, Some d) \<Rightarrow> False
           | _ \<Rightarrow> True))"

text \<open>The position of a walk after \<open>k\<close> moves.\<close>

definition walk_pos :: "bool \<Rightarrow> bool \<Rightarrow> int \<Rightarrow> int \<Rightarrow> int \<Rightarrow> int \<times> int" where
  "walk_pos x_val max_val x y k =
     (if max_val then (if x_val then (x + k, y) else (x, y + k))
      else (if x_val then (x - k, y) else (x, y - k)))"

text \<open>
  The sample at the position after \<open>k\<close> moves counts: the position is inside the
  array and, on a walk towards lower indices, so that the next position is
  not negative.
\<close>

definition counts :: "grid \<Rightarrow> bool \<Rightarrow> bool \<Rightarrow> int \<Rightarrow> int \<Rightarrow> int \<Rightarrow> bool" where
  "counts value x_val max_val x y k =
     (0 \<le> k \<and>
      0 \<le> fst (walk_pos x_val max_val x y k) \<and>
      fst (walk_pos x_val max_val x y k) < snd (shape value) \<and>
      0 \<le> snd (walk_pos x_val max_val x y k) \<and>
      snd (walk_pos x_val max_val x y k) < fst (shape value) \<and>
      (max_val \<or>
       (0 \<le> fst (walk_pos x_val max_val x y (k + 1)) \<and>
        0 \<le> snd (walk_pos x_val max_val x y (k + 1)))))"

text \<open>The sample at the position after \<open>k\<close> moves.\<close>

definition sample_at :: "grid \<Rightarrow> bool \<Rightarrow> bool \<Rightarrow> int \<Rightarrow> int \<Rightarrow> int \<Rightarrow> real" where
  "sample_at value x_val max_val x y k =
     value ! nat (snd (walk_pos x_val max_val x y k)) ! nat (fst (walk_pos x_val max_val x y k))"

text \<open>
  The whole number that \<^verbatim>\<open>_winding_path\<close> adds to the plain difference of
  two hues: 1 or \<open>- 1\<close> where the hue passes through 0, and 0 elsewhere.
\<close>

definition jump :: "real \<Rightarrow> real \<Rightarrow> real" where
  "jump val1 val2 =
     (if val2 > 7 / 10 \<and> val1 < 3 / 10 then 1
      else if val2 < 3 / 10 \<and> val1 > 7 / 10 then - 1 else 0)"

text \<open>The point of the plane at column \<open>x\<close> and row \<open>y\<close> of the grid of the tests.\<close>

definition pt :: "int \<Rightarrow> int \<Rightarrow> complex" where
  "pt x y = Complex ((of_int x - 100) / 10) ((100 - of_int y) / 10)"

text \<open>The first \<open>m\<close> terms of the series of the arc tangent.\<close>

definition arctan_sum :: "real \<Rightarrow> nat \<Rightarrow> real" where
  "arctan_sum x m = (\<Sum>i<m. (- 1) ^ i * (1 / real (i * 2 + 1) * x ^ (i * 2 + 1)))"

section \<open>Example arrays\<close>

text \<open>Brightness arrays with one dark sample, and a hue array that winds once.\<close>

definition V2 :: grid where
  "V2 = [[1, 0], [1, 1]]"

definition V3 :: grid where
  "V3 = [[1, 1, 1], [1, 0, 1], [1, 1, 1]]"

definition V4 :: grid where
  "V4 = [[1, 1, 1, 1], [1, 1, 1, 1], [1, 1, 0, 1], [1, 1, 1, 1]]"

definition V5 :: grid where
  "V5 = [[1, 1, 1, 1, 1],
         [1, 1, 1, 1, 1],
         [1, 1, 0, 1, 1],
         [1, 1, 1, 1, 1],
         [1, 1, 1, 1, 1]]"

definition W5 :: grid where
  "W5 = [[1, 1, 1, 1, 1],
         [1, 1, 1, 1, 1],
         [1, 0, 1, 1, 1],
         [1, 1, 1, 1, 1],
         [1, 1, 1, 1, 1]]"

definition H5 :: grid where
  "H5 = [[12 / 16, 11 / 16, 10 / 16, 9 / 16, 8 / 16],
         [13 / 16, 1 / 2, 1 / 2, 1 / 2, 7 / 16],
         [14 / 16, 1 / 2, 1 / 2, 1 / 2, 6 / 16],
         [15 / 16, 1 / 2, 1 / 2, 1 / 2, 5 / 16],
         [0, 1 / 16, 2 / 16, 3 / 16, 4 / 16]]"

text \<open>
  A brightness array with the dark sample in the last row, and a pair with a
  constant hue and two dark samples in the last column and the last row.
\<close>

definition D3 :: grid where
  "D3 = [[1, 1, 1], [1, 1, 1], [1, 0, 1]]"

definition F5 :: grid where
  "F5 = [[1 / 2, 1 / 2, 1 / 2, 1 / 2, 1 / 2],
         [1 / 2, 1 / 2, 1 / 2, 1 / 2, 1 / 2],
         [1 / 2, 1 / 2, 1 / 2, 1 / 2, 1 / 2],
         [1 / 2, 1 / 2, 1 / 2, 1 / 2, 1 / 2],
         [1 / 2, 1 / 2, 1 / 2, 1 / 2, 1 / 2]]"

definition E5 :: grid where
  "E5 = [[1, 1, 1, 1, 1],
         [1, 1, 1, 1, 0],
         [1, 1, 1, 1, 1],
         [1, 1, 1, 1, 1],
         [1, 1, 0, 1, 1]]"

text \<open>
  The mirror image of \<open>W5\<close>, and an array that is dark from the dark sample
  to the first column.
\<close>

definition M5 :: grid where
  "M5 = [[1, 1, 1, 1, 1],
         [1, 1, 1, 1, 1],
         [1, 1, 1, 0, 1],
         [1, 1, 1, 1, 1],
         [1, 1, 1, 1, 1]]"

definition L5 :: grid where
  "L5 = [[1, 1, 1, 1, 1],
         [1, 1, 1, 1, 1],
         [0, 0, 1, 1, 1],
         [1, 1, 1, 1, 1],
         [1, 1, 1, 1, 1]]"

section \<open>The signed difference of two neighbouring hues\<close>

text \<open>
  C1, as stated: on a pair of samples walked from \<open>val2\<close> to \<open>val1\<close>, the next value
  \<open>val1\<close> above 0.7 with the previous value \<open>val2\<close> below 0.3 gives
  \<open>1 + val1 - val2\<close>. The function gives \<open>- 1 + val1 - val2\<close> there: from the hue
  0.1 to the hue 0.9 the result is \<open>- 0.2\<close>, not \<open>1.8\<close>.
\<close>

theorem winding_path_next_high_counterexample:
  "(9 / 10 :: real) > 7 / 10 \<and> (1 / 10 :: real) < 3 / 10 \<and>
   winding_path (9 / 10) (1 / 10) = - 1 + 9 / 10 - 1 / 10 \<and>
   winding_path (9 / 10) (1 / 10) \<noteq> 1 + 9 / 10 - 1 / 10"
  by (simp add: winding_path_def)

text \<open>
  C1, amended: the roles of the two samples are the other way round. When the
  previous value \<open>val2\<close> is above 0.7 and the next value \<open>val1\<close> is below 0.3 the
  difference is \<open>1 + val1 - val2\<close> (the hue went forward through 0); when the
  previous value is below 0.3 and the next value is above 0.7 it is
  \<open>- 1 + val1 - val2\<close>; in every other case it is \<open>val1 - val2\<close>.
\<close>

theorem winding_path_cases:
  "winding_path val1 val2 =
     (if val2 > 7 / 10 \<and> val1 < 3 / 10 then 1 + val1 - val2
      else if val2 < 3 / 10 \<and> val1 > 7 / 10 then - 1 + val1 - val2
      else val1 - val2)"
  by (auto simp add: winding_path_def Let_def)

theorem winding_path_cases_witness:
  "winding_path (1 / 10) (9 / 10) = 2 / 10 \<and> winding_path (1 / 2) (1 / 4) = 1 / 4"
  using winding_path_cases [of "1 / 10" "9 / 10"] winding_path_cases [of "1 / 2" "1 / 4"]
  by simp

section \<open>The loops of the search\<close>

declare calc_zeros.simps [simp del]
declare brightness_walk.simps [simp del]

lemma item_error: "item xs i = Inl e \<Longrightarrow> e = IndexError"
  by (simp add: item_def split: if_splits)

lemma at2_error: "at2 a y x = Inl e \<Longrightarrow> e = IndexError"
  by (auto simp add: at2_def split: sum.splits dest: item_error)

lemma set_range_py: "set (range_py lo hi) = {i. lo \<le> i \<and> i < hi}"
  by (auto simp add: range_py_def)

lemma mark_eq:
  "mark value tol j i zs =
     (if readable value i j then Inr (zs \<union> hit value tol i j) else Inl IndexError)"
  by (auto simp add: mark_def readable_def hit_def below_def split: sum.splits dest: at2_error)

lemma for_each_union:
  assumes "\<And>x s. body x s = (if ok x then Inr (s \<union> add x) else Inl IndexError)"
  shows "for_each xs body s =
     (if \<forall>x \<in> set xs. ok x then Inr (s \<union> (\<Union>x \<in> set xs. add x)) else Inl IndexError)"
proof (induction xs arbitrary: s)
  case Nil
  show ?case by simp
next
  case (Cons x xs)
  show ?case
  proof (cases "ok x")
    case True
    then have "for_each (x # xs) body s = for_each xs body (s \<union> add x)"
      using assms [of x s] by simp
    also have "\<dots> = (if \<forall>x \<in> set xs. ok x
        then Inr ((s \<union> add x) \<union> (\<Union>x \<in> set xs. add x)) else Inl IndexError)"
      by (rule Cons.IH)
    finally show ?thesis
      using True by (simp add: Un_assoc)
  next
    case False
    then show ?thesis
      using assms [of x s] by simp
  qed
qed

lemma scan_cell_eq:
  "scan_cell value tol x1 y1 x2 y2 zs =
     (if \<forall>i j. x1 \<le> i \<and> i < x2 \<and> y1 \<le> j \<and> j < y2 \<longrightarrow> readable value i j
      then Inr (zs \<union> {(i, j). x1 \<le> i \<and> i < x2 \<and> y1 \<le> j \<and> j < y2 \<and> below value tol i j})
      else Inl IndexError)"
proof -
  have inner: "for_each (range_py y1 y2) (\<lambda>j. mark value tol j i) s =
      (if \<forall>j \<in> set (range_py y1 y2). readable value i j
       then Inr (s \<union> (\<Union>j \<in> set (range_py y1 y2). hit value tol i j)) else Inl IndexError)" for i s
    by (rule for_each_union) (simp add: mark_eq)
  have outer: "scan_cell value tol x1 y1 x2 y2 zs =
      (if \<forall>i \<in> set (range_py x1 x2). \<forall>j \<in> set (range_py y1 y2). readable value i j
       then Inr (zs \<union> (\<Union>i \<in> set (range_py x1 x2). \<Union>j \<in> set (range_py y1 y2). hit value tol i j))
       else Inl IndexError)"
    unfolding scan_cell_def by (rule for_each_union) (simp add: inner)
  have sets: "(\<Union>i \<in> set (range_py x1 x2). \<Union>j \<in> set (range_py y1 y2). hit value tol i j) =
      {(i, j). x1 \<le> i \<and> i < x2 \<and> y1 \<le> j \<and> j < y2 \<and> below value tol i j}"
    by (auto simp add: set_range_py hit_def split: if_splits)
  show ?thesis
    unfolding outer sets by (simp add: set_range_py)
qed


lemma scan_edges_eq:
  "scan_edges value tol x1 y1 x2 y2 zs =
     (if (\<forall>i. x1 \<le> i \<and> i < x2 \<longrightarrow> readable value i y1 \<and> readable value i y2) \<and>
         (\<forall>j. y1 \<le> j \<and> j < y2 \<longrightarrow> readable value x1 j \<and> readable value x2 j)
      then Inr (zs \<union> {(i, j). x1 \<le> i \<and> i < x2 \<and> (j = y1 \<or> j = y2) \<and> below value tol i j}
                   \<union> {(i, j). y1 \<le> j \<and> j < y2 \<and> (i = x1 \<or> i = x2) \<and> below value tol i j})
      else Inl IndexError)"
proof -
  have rows: "for_each (range_py x1 x2)
        (\<lambda>i zs. (case mark value tol y1 i zs of Inl e \<Rightarrow> Inl e
                  | Inr zs' \<Rightarrow> mark value tol y2 i zs')) s =
      (if \<forall>i \<in> set (range_py x1 x2). readable value i y1 \<and> readable value i y2
       then Inr (s \<union> (\<Union>i \<in> set (range_py x1 x2). hit value tol i y1 \<union> hit value tol i y2))
       else Inl IndexError)" for s
    by (rule for_each_union) (simp add: mark_eq Un_assoc)
  have cols: "for_each (range_py y1 y2)
        (\<lambda>j zs. (case mark value tol j x1 zs of Inl e \<Rightarrow> Inl e
                  | Inr zs' \<Rightarrow> mark value tol j x2 zs')) s =
      (if \<forall>j \<in> set (range_py y1 y2). readable value x1 j \<and> readable value x2 j
       then Inr (s \<union> (\<Union>j \<in> set (range_py y1 y2). hit value tol x1 j \<union> hit value tol x2 j))
       else Inl IndexError)" for s
    by (rule for_each_union) (simp add: mark_eq Un_assoc)
  have s1: "(\<Union>i \<in> set (range_py x1 x2). hit value tol i y1 \<union> hit value tol i y2) =
      {(i, j). x1 \<le> i \<and> i < x2 \<and> (j = y1 \<or> j = y2) \<and> below value tol i j}"
    by (auto simp add: set_range_py hit_def split: if_splits)
  have s2: "(\<Union>j \<in> set (range_py y1 y2). hit value tol x1 j \<union> hit value tol x2 j) =
      {(i, j). y1 \<le> j \<and> j < y2 \<and> (i = x1 \<or> i = x2) \<and> below value tol i j}"
    by (auto simp add: set_range_py hit_def split: if_splits)
  show ?thesis
    unfolding scan_edges_def rows cols s1 s2 by (simp add: set_range_py)
qed

lemma ceil_half_eq: "ceil_half n = (n + 1) div 2"
  unfolding ceil_half_def by linarith

lemma calc_zeros_base:
  "y2 - y1 \<le> 3 \<and> x2 - x1 \<le> 3 \<Longrightarrow>
   calc_zeros hue value ((x1, y1), (x2, y2)) zs tol = ([], scan_cell value tol x1 y1 x2 y2 zs)"
  by (simp add: calc_zeros.simps)

lemma calc_zeros_raise:
  "\<not> (y2 - y1 \<le> 3 \<and> x2 - x1 \<le> 3) \<Longrightarrow> winding_num hue ((x1, y1), (x2, y2)) = Inl e \<Longrightarrow>
   calc_zeros hue value ((x1, y1), (x2, y2)) zs tol = ([((x1, y1), (x2, y2))], Inl e)"
  by (simp add: calc_zeros.simps)

lemma calc_zeros_flat:
  "\<not> (y2 - y1 \<le> 3 \<and> x2 - x1 \<le> 3) \<Longrightarrow> winding_num hue ((x1, y1), (x2, y2)) = Inr 0 \<Longrightarrow>
   calc_zeros hue value ((x1, y1), (x2, y2)) zs tol =
     ([((x1, y1), (x2, y2))], scan_edges value tol x1 y1 x2 y2 zs)"
  by (simp add: calc_zeros.simps)

lemma calc_zeros_wide:
  assumes "\<not> (y2 - y1 \<le> 3 \<and> x2 - x1 \<le> 3)"
    and "winding_num hue ((x1, y1), (x2, y2)) = Inr w" and "w \<noteq> 0" and "y2 - y1 < x2 - x1"
    and "calc_zeros hue value ((x1, y1), (ceil_half (x2 + x1), y2)) zs tol = (t1, r1)"
  shows "calc_zeros hue value ((x1, y1), (x2, y2)) zs tol =
     (case r1 of Inl e \<Rightarrow> (((x1, y1), (x2, y2)) # t1, Inl e)
      | Inr zs1 \<Rightarrow>
          (((x1, y1), (x2, y2)) # t1 @
             fst (calc_zeros hue value ((ceil_half (x2 + x1), y1), (x2, y2)) zs1 tol),
           snd (calc_zeros hue value ((ceil_half (x2 + x1), y1), (x2, y2)) zs1 tol)))"
  using assms
  by (subst calc_zeros.simps) (simp split: sum.splits prod.splits)

lemma calc_zeros_tall:
  assumes "\<not> (y2 - y1 \<le> 3 \<and> x2 - x1 \<le> 3)"
    and "winding_num hue ((x1, y1), (x2, y2)) = Inr w" and "w \<noteq> 0" and "\<not> y2 - y1 < x2 - x1"
    and "calc_zeros hue value ((x1, y1), (x2, ceil_half (y2 + y1))) zs tol = (t1, r1)"
  shows "calc_zeros hue value ((x1, y1), (x2, y2)) zs tol =
     (case r1 of Inl e \<Rightarrow> (((x1, y1), (x2, y2)) # t1, Inl e)
      | Inr zs1 \<Rightarrow>
          (((x1, y1), (x2, y2)) # t1 @
             fst (calc_zeros hue value ((x1, ceil_half (y1 + y2)), (x2, y2)) zs1 tol),
           snd (calc_zeros hue value ((x1, ceil_half (y1 + y2)), (x2, y2)) zs1 tol)))"
  using assms
  by (subst calc_zeros.simps) (simp split: sum.splits prod.splits)


lemma split_bounds:
  "4 \<le> b - a \<Longrightarrow> a + 2 \<le> ceil_half (b + a) \<and> ceil_half (b + a) + 2 \<le> b"
  "4 \<le> b - a \<Longrightarrow> a + 2 \<le> ceil_half (a + b) \<and> ceil_half (a + b) + 2 \<le> b"
  unfolding ceil_half_eq by linarith+

lemma calc_zeros_sound:
  "snd (calc_zeros hue value r zs tol) = Inr Z \<Longrightarrow>
   zs \<subseteq> Z \<and> (\<forall>p \<in> Z - zs. in_box r p \<and> below value tol (fst p) (snd p))"
proof (induction hue "value" r zs tol arbitrary: Z rule: calc_zeros.induct)
  case (1 hue "value" x1 y1 x2 y2 zs tol)
  let ?R = "((x1, y1), (x2, y2))"
  show ?case
  proof (cases "y2 - y1 \<le> 3 \<and> x2 - x1 \<le> 3")
    case True
    with "1.prems" have "scan_cell value tol x1 y1 x2 y2 zs = Inr Z"
      by (simp add: calc_zeros_base)
    then show ?thesis
      by (auto simp add: scan_cell_eq in_box_def split: if_splits)
  next
    case big: False
    show ?thesis
    proof (cases "winding_num hue ?R")
      case (Inl e)
      with big "1.prems" show ?thesis
        by (simp add: calc_zeros_raise)
    next
      case (Inr w)
      show ?thesis
      proof (cases "w = 0")
        case True
        with big Inr "1.prems" have "scan_edges value tol x1 y1 x2 y2 zs = Inr Z"
          by (simp add: calc_zeros_flat)
        then show ?thesis
          by (auto simp add: scan_edges_eq in_box_def split: if_splits)
      next
        case nz: False
        show ?thesis
        proof (cases "y2 - y1 < x2 - x1")
          case wide: True
          let ?m = "ceil_half (x2 + x1)"
          obtain t1 r1 where c1: "calc_zeros hue value ((x1, y1), (?m, y2)) zs tol = (t1, r1)"
            by (cases "calc_zeros hue value ((x1, y1), (?m, y2)) zs tol") simp
          note unf = calc_zeros_wide [OF big Inr nz wide c1]
          from big wide have "4 \<le> x2 - x1" by linarith
          note m = split_bounds(1) [OF this]
          show ?thesis
          proof (cases r1)
            case (Inl e)
            with unf "1.prems" show ?thesis by simp
          next
            case zs1: (Inr zs1)
            from unf zs1 "1.prems"
            have c2: "snd (calc_zeros hue value ((?m, y1), (x2, y2)) zs1 tol) = Inr Z"
              by simp
            from c1 zs1 have "snd (calc_zeros hue value ((x1, y1), (?m, y2)) zs tol) = Inr zs1"
              by simp
            from "1.IH"(1) [OF big Inr nz wide this]
            have h1: "zs \<subseteq> zs1"
              "\<And>p. p \<in> zs1 \<Longrightarrow> p \<notin> zs \<Longrightarrow>
                 in_box ((x1, y1), (?m, y2)) p \<and> below value tol (fst p) (snd p)"
              by auto
            from "1.IH"(2) [OF big Inr nz wide c1 [symmetric] zs1 c2]
            have h2: "zs1 \<subseteq> Z"
              "\<And>p. p \<in> Z \<Longrightarrow> p \<notin> zs1 \<Longrightarrow>
                 in_box ((?m, y1), (x2, y2)) p \<and> below value tol (fst p) (snd p)"
              by auto
            have b1: "in_box ((x1, y1), (?m, y2)) p \<Longrightarrow> in_box ?R p" for p
              using m by (auto simp add: in_box_def)
            have b2: "in_box ((?m, y1), (x2, y2)) p \<Longrightarrow> in_box ?R p" for p
              using m by (auto simp add: in_box_def)
            show ?thesis
              using h1 h2 b1 b2 by blast
          qed
        next
          case tall: False
          let ?m = "ceil_half (y2 + y1)"
          let ?n = "ceil_half (y1 + y2)"
          obtain t1 r1 where c1: "calc_zeros hue value ((x1, y1), (x2, ?m)) zs tol = (t1, r1)"
            by (cases "calc_zeros hue value ((x1, y1), (x2, ?m)) zs tol") simp
          note unf = calc_zeros_tall [OF big Inr nz tall c1]
          from big tall have "4 \<le> y2 - y1" by linarith
          note m = split_bounds [OF this]
          show ?thesis
          proof (cases r1)
            case (Inl e)
            with unf "1.prems" show ?thesis by simp
          next
            case zs1: (Inr zs1)
            from unf zs1 "1.prems"
            have c2: "snd (calc_zeros hue value ((x1, ?n), (x2, y2)) zs1 tol) = Inr Z"
              by simp
            from c1 zs1 have "snd (calc_zeros hue value ((x1, y1), (x2, ?m)) zs tol) = Inr zs1"
              by simp
            from "1.IH"(3) [OF big Inr nz tall this]
            have h1: "zs \<subseteq> zs1"
              "\<And>p. p \<in> zs1 \<Longrightarrow> p \<notin> zs \<Longrightarrow>
                 in_box ((x1, y1), (x2, ?m)) p \<and> below value tol (fst p) (snd p)"
              by auto
            from "1.IH"(4) [OF big Inr nz tall c1 [symmetric] zs1 c2]
            have h2: "zs1 \<subseteq> Z"
              "\<And>p. p \<in> Z \<Longrightarrow> p \<notin> zs1 \<Longrightarrow>
                 in_box ((x1, ?n), (x2, y2)) p \<and> below value tol (fst p) (snd p)"
              by auto
            have b1: "in_box ((x1, y1), (x2, ?m)) p \<Longrightarrow> in_box ?R p" for p
              using m by (auto simp add: in_box_def)
            have b2: "in_box ((x1, ?n), (x2, y2)) p \<Longrightarrow> in_box ?R p" for p
              using m by (auto simp add: in_box_def)
            show ?thesis
              using h1 h2 b1 b2 by blast
          qed
        qed
      qed
    qed
  qed
qed

lemma calc_zeros_trace:
  "1 \<le> span_x r \<and> 1 \<le> span_y r \<Longrightarrow>
   \<forall>q \<in> set (fst (calc_zeros hue value r zs tol)). 1 \<le> span_x q \<and> 1 \<le> span_y q"
proof (induction hue "value" r zs tol rule: calc_zeros.induct)
  case (1 hue "value" x1 y1 x2 y2 zs tol)
  let ?R = "((x1, y1), (x2, y2))"
  from "1.prems" have sp: "1 \<le> x2 - x1" "1 \<le> y2 - y1"
    by (simp_all add: span_x_def span_y_def)
  show ?case
  proof (cases "y2 - y1 \<le> 3 \<and> x2 - x1 \<le> 3")
    case True
    then show ?thesis by (simp add: calc_zeros_base)
  next
    case big: False
    show ?thesis
    proof (cases "winding_num hue ?R")
      case (Inl e)
      with big "1.prems" show ?thesis
        by (simp add: calc_zeros_raise)
    next
      case (Inr w)
      show ?thesis
      proof (cases "w = 0")
        case True
        with big Inr "1.prems" show ?thesis
          by (simp add: calc_zeros_flat)
      next
        case nz: False
        show ?thesis
        proof (cases "y2 - y1 < x2 - x1")
          case wide: True
          let ?m = "ceil_half (x2 + x1)"
          obtain t1 r1 where c1: "calc_zeros hue value ((x1, y1), (?m, y2)) zs tol = (t1, r1)"
            by (cases "calc_zeros hue value ((x1, y1), (?m, y2)) zs tol") simp
          note unf = calc_zeros_wide [OF big Inr nz wide c1]
          from big wide have "4 \<le> x2 - x1" by linarith
          note m = split_bounds(1) [OF this]
          have s1: "1 \<le> span_x ((x1, y1), (?m, y2)) \<and> 1 \<le> span_y ((x1, y1), (?m, y2))"
            using m sp by (simp add: span_x_def span_y_def)
          have s2: "1 \<le> span_x ((?m, y1), (x2, y2)) \<and> 1 \<le> span_y ((?m, y1), (x2, y2))"
            using m sp by (simp add: span_x_def span_y_def)
          from "1.IH"(1) [OF big Inr nz wide s1] c1
          have h1: "\<forall>q \<in> set t1. 1 \<le> span_x q \<and> 1 \<le> span_y q"
            by simp
          show ?thesis
          proof (cases r1)
            case (Inl e)
            with unf h1 "1.prems" show ?thesis by simp
          next
            case zs1: (Inr zs1)
            from "1.IH"(2) [OF big Inr nz wide c1 [symmetric] zs1 s2]
            show ?thesis
              using unf zs1 h1 "1.prems" by auto
          qed
        next
          case tall: False
          let ?m = "ceil_half (y2 + y1)"
          let ?n = "ceil_half (y1 + y2)"
          obtain t1 r1 where c1: "calc_zeros hue value ((x1, y1), (x2, ?m)) zs tol = (t1, r1)"
            by (cases "calc_zeros hue value ((x1, y1), (x2, ?m)) zs tol") simp
          note unf = calc_zeros_tall [OF big Inr nz tall c1]
          from big tall have "4 \<le> y2 - y1" by linarith
          note m = split_bounds [OF this]
          have s1: "1 \<le> span_x ((x1, y1), (x2, ?m)) \<and> 1 \<le> span_y ((x1, y1), (x2, ?m))"
            using m sp by (simp add: span_x_def span_y_def)
          have s2: "1 \<le> span_x ((x1, ?n), (x2, y2)) \<and> 1 \<le> span_y ((x1, ?n), (x2, y2))"
            using m sp by (simp add: span_x_def span_y_def)
          from "1.IH"(3) [OF big Inr nz tall s1] c1
          have h1: "\<forall>q \<in> set t1. 1 \<le> span_x q \<and> 1 \<le> span_y q"
            by simp
          show ?thesis
          proof (cases r1)
            case (Inl e)
            with unf h1 "1.prems" show ?thesis by simp
          next
            case zs1: (Inr zs1)
            from "1.IH"(4) [OF big Inr nz tall c1 [symmetric] zs1 s2]
            show ?thesis
              using unf zs1 h1 "1.prems" by auto
          qed
        qed
      qed
    qed
  qed
qed

lemmas eval_simps = calc_zeros.simps scan_cell_def scan_edges_def range_py_def mark_def at2_def
  item_def ceil_half_eq winding_num_def winding_sum_def wind_rows_def wind_cols_def normalize_def
  winding_path_def py_round_def start_rect_def shape_def zeros_def upto.simps

lemma run_H5:
  "calc_zeros H5 V5 ((0, 0), (4, 4)) {} (1 / 100) =
     ([((0, 0), (4, 4)), ((0, 0), (4, 2)), ((0, 2), (4, 4))], Inr {(2, 2)})"
  by (simp add: eval_simps H5_def V5_def)

section \<open>The base case of the search\<close>

text \<open>
  The points that the base case reads: the loops run over \<^verbatim>\<open>range(x1, x2)\<close>
  and \<^verbatim>\<open>range(y1, y2)\<close>, so these are the points \<open>(i, j)\<close> with
  \<open>x1 \<le> i < x2\<close> and \<open>y1 \<le> j < y2\<close>; the column \<open>x2\<close> and the row \<open>y2\<close>
  of the rectangle are never read.
\<close>

lemma base_case_points:
  assumes "y2 - y1 \<le> 3" and "x2 - x1 \<le> 3"
  shows "calc_zeros hue value ((x1, y1), (x2, y2)) zs tol =
     ([], if \<forall>i j. x1 \<le> i \<and> i < x2 \<and> y1 \<le> j \<and> j < y2 \<longrightarrow> readable value i j
          then Inr (zs \<union> {(i, j). x1 \<le> i \<and> i < x2 \<and> y1 \<le> j \<and> j < y2 \<and> below value tol i j})
          else Inl IndexError)"
  using assms by (simp add: calc_zeros_base scan_cell_eq)

text \<open>
  C3: in the base case every point of the rectangle, the boundary included,
  is tested, and every one with a brightness below \<open>tol\<close> is recorded. The
  code does not do this. A \<open>3 \<times> 3\<close> array searched as a whole is the
  rectangle with the corners \<open>(0, 0)\<close> and \<open>(2, 2)\<close>, a base case. In \<open>D3\<close>
  the sample at column 1 of row 2 is 0, below the tolerance 0.01, and lies on
  the boundary of this rectangle; the search returns no index and
  \<^verbatim>\<open>zeros\<close> returns two empty lists. The other branch of \<^verbatim>\<open>_calc_zeros\<close>
  does read the column \<open>x2\<close> and the row \<open>y2\<close>: with the constant hue \<open>F5\<close>
  the winding number is 0 and the dark samples of \<open>E5\<close> at \<open>(4, 1)\<close> and
  \<open>(2, 4)\<close>, in the last column and the last row, are recorded.
\<close>

theorem base_case_skips_far_edge:
  "start_rect D3 None = ((0, 0), (2, 2)) \<and> at2 D3 2 1 = Inr 0 \<and>
   calc_zeros D3 D3 ((0, 0), (2, 2)) {} (1 / 100) = ([], Inr {}) \<and>
   zeros (\<lambda>S. []) D3 D3 (- 1, 1) (- 1, 1) None (1 / 100) = Inr ([], []) \<and>
   calc_zeros F5 E5 ((0, 0), (4, 4)) {} (1 / 100) = ([((0, 0), (4, 4))], Inr {(4, 1), (2, 4)})"
  by (simp add: eval_simps D3_def E5_def F5_def)

section \<open>The indices that are found\<close>

text \<open>
  C10: every index \<open>(col, row)\<close> of the list returned by \<^verbatim>\<open>zeros\<close> lies
  between the corners of the rectangle that was searched and the brightness
  read at \<^verbatim>\<open>value[row][col]\<close> is below \<open>tol\<close>. The list holds the elements
  of the set the search returns, \<open>order\<close> being the order of iteration of that set.
\<close>

theorem zeros_indices_dark:
  assumes run: "snd (calc_zeros hue value (start_rect hue rect) {} tol) = Inr Z"
    and ord: "set (order Z) = Z"
    and res: "zeros order hue value re_range im_range rect tol = Inr (zero_list, index_list)"
  shows "set index_list = Z \<and>
         (\<forall>p \<in> set index_list.
            in_box (start_rect hue rect) p \<and> below value tol (fst p) (snd p))"
proof -
  from res run have "index_list = order Z"
    by (auto simp add: zeros_def Let_def split: prod.splits if_splits)
  with ord have il: "set index_list = Z" by simp
  from calc_zeros_sound [OF run] show ?thesis
    unfolding il by simp
qed

theorem zeros_indices_dark_witness:
  "snd (calc_zeros V3 V3 (start_rect V3 None) {} (1 / 100)) = Inr {(1, 1)} \<and>
   zeros (\<lambda>S. [(1, 1)]) V3 V3 (- 1, 1) (- 1, 3) None (1 / 100) = Inr ([Complex 0 0], [(1, 1)]) \<and>
   in_box (start_rect V3 None) (1, 1) \<and> below V3 (1 / 100) 1 1"
proof -
  have run: "snd (calc_zeros V3 V3 (start_rect V3 None) {} (1 / 100)) = Inr {(1, 1)}"
    by (simp add: eval_simps V3_def)
  have ord: "set ((\<lambda>S. [(1, 1)]) {(1 :: int, 1 :: int)}) = {(1 :: int, 1 :: int)}"
    by simp
  have res: "zeros (\<lambda>S. [(1, 1)]) V3 V3 (- 1, 1) (- 1, 3) None (1 / 100) =
      Inr ([Complex 0 0], [(1, 1)])"
    by (simp add: eval_simps V3_def)
  show ?thesis
    using zeros_indices_dark [OF run ord res] run res by simp
qed

section \<open>The rectangles handed to the winding number\<close>

text \<open>
  C9: when the rectangle \<^verbatim>\<open>zeros\<close> starts from (the whole array or the given
  one) has a span of at least 1 along both axes, so has every rectangle on
  which the search calls \<^verbatim>\<open>winding_num\<close>.
\<close>

theorem winding_rects_span:
  assumes "1 \<le> span_x (start_rect hue rect)" and "1 \<le> span_y (start_rect hue rect)"
  shows "\<forall>q \<in> set (fst (calc_zeros hue value (start_rect hue rect) {} tol)).
           1 \<le> span_x q \<and> 1 \<le> span_y q"
  using assms calc_zeros_trace by blast

theorem winding_rects_span_witness:
  "1 \<le> span_x (start_rect H5 None) \<and> 1 \<le> span_y (start_rect H5 None) \<and>
   fst (calc_zeros H5 V5 (start_rect H5 None) {} (1 / 100)) =
     [((0, 0), (4, 4)), ((0, 0), (4, 2)), ((0, 2), (4, 4))] \<and>
   1 \<le> span_x ((0, 0), (4, 2)) \<and> 1 \<le> span_y ((0, 0), (4, 2))"
proof -
  have st: "start_rect H5 None = ((0, 0), (4, 4))"
    by (simp add: start_rect_def shape_def H5_def)
  have sp: "1 \<le> span_x (start_rect H5 None)" "1 \<le> span_y (start_rect H5 None)"
    unfolding st by (simp_all add: span_x_def span_y_def)
  have tr: "fst (calc_zeros H5 V5 (start_rect H5 None) {} (1 / 100)) =
      [((0, 0), (4, 4)), ((0, 0), (4, 2)), ((0, 2), (4, 4))]"
    unfolding st by (simp add: run_H5)
  show ?thesis
    using winding_rects_span [OF sp, of V5 "1 / 100"] sp tr by simp
qed

section \<open>The complex values of the indices\<close>

text \<open>
  C5: when \<^verbatim>\<open>zeros\<close> returns, its list of indices is the set found by the
  search in the order of iteration, and the complex value at the position of
  the index \<open>(col, row)\<close> is \<open>re_range[0] + col * step\<close> for the real part and
  \<open>im_range[0] + row * step\<close> for the imaginary part, where \<open>step\<close> is
  \<open>(re_range[1] - re_range[0]) / (rows - 1)\<close> for both, whatever \<open>im_range\<close> is.
\<close>

theorem zeros_values:
  assumes "zeros order hue value re_range im_range rect tol = Inr (zero_list, index_list)"
  shows "\<exists>Z. snd (calc_zeros hue value (start_rect hue rect) {} tol) = Inr Z \<and>
           index_list = order Z \<and>
           zero_list =
             map (\<lambda>(col, row).
                    Complex
                      (fst re_range +
                         of_int col * ((snd re_range - fst re_range) / of_int (fst (shape hue) - 1)))
                      (fst im_range +
                         of_int row * ((snd re_range - fst re_range) / of_int (fst (shape hue) - 1))))
                 index_list"
  using assms
  by (auto simp add: zeros_def Let_def split: prod.splits sum.splits if_splits)

theorem zeros_values_witness:
  "zeros (\<lambda>S. [(1, 1)]) V3 V3 (- 1, 1) (- 1, 3) None (1 / 100) = Inr ([Complex 0 0], [(1, 1)]) \<and>
   [Complex 0 0] =
     map (\<lambda>(col, row). Complex (- 1 + of_int col * ((1 - (- 1)) / of_int (3 - 1)))
                               (- 1 + of_int row * ((1 - (- 1)) / of_int (3 - 1))))
         [(1, 1)]"
proof -
  have run: "zeros (\<lambda>S. [(1, 1)]) V3 V3 (- 1, 1) (- 1, 3) None (1 / 100) = Inr ([Complex 0 0], [(1, 1)])"
    by (simp add: eval_simps V3_def)
  have sh: "fst (shape V3) = 3"
    by (simp add: shape_def V3_def)
  show ?thesis
    using zeros_values [OF run] run sh by simp
qed

section \<open>The new window of the zoom\<close>

lemma item_Inr: "item xs i = Inr v \<Longrightarrow> i < int (length xs) \<and> v \<in> set xs"
  by (auto simp add: item_def split: if_splits)

lemma at2_Inr:
  assumes "at2 a y x = Inr v" and "is_array a"
  shows "y < fst (shape a) \<and> x < snd (shape a)"
proof -
  from assms(1) obtain r where r: "item a y = Inr r" "item r x = Inr v"
    by (auto simp add: at2_def split: sum.splits)
  from r(1) have "y < int (length a)" "r \<in> set a"
    by (auto dest: item_Inr)
  moreover from r(2) have "x < int (length r)"
    by (auto dest: item_Inr)
  ultimately show ?thesis
    using assms(2) by (auto simp add: is_array_def shape_def)
qed

lemma walk_bounds:
  "brightness_walk value light_val x_val max_val x y diff light = Some d \<Longrightarrow>
   diff \<le> d \<and> (light < light_val \<longrightarrow> diff < d) \<and>
   (diff < d \<longrightarrow>
      (\<not> max_val \<and> x_val \<longrightarrow> 0 \<le> x - (d - diff)) \<and>
      (\<not> max_val \<and> \<not> x_val \<longrightarrow> 0 \<le> y - (d - diff)) \<and>
      (max_val \<and> x_val \<and> is_array value \<longrightarrow> x + (d - diff) \<le> snd (shape value)) \<and>
      (max_val \<and> \<not> x_val \<and> is_array value \<longrightarrow> y + (d - diff) \<le> fst (shape value)))"
proof (induction "value" light_val x_val max_val x y diff light rule: brightness_walk.induct)
  case (1 "value" light_val x_val max_val x y diff light)
  show ?case
  proof (cases "light < light_val")
    case False
    with "1.prems" show ?thesis
      by (simp add: brightness_walk.simps)
  next
    case True
    define x' where "x' = (if max_val then if x_val then x + 1 else x else if x_val then x - 1 else x)"
    define y' where "y' = (if max_val then if x_val then y else y + 1 else if x_val then y else y - 1)"
    from True "1.prems" obtain l where rd: "at2 value y x = Inr l"
      by (subst (asm) brightness_walk.simps) (auto split: sum.splits)
    from True "1.prems" rd have pos: "\<not> (x' < 0 \<or> y' < 0)"
      by (subst (asm) brightness_walk.simps) (auto simp add: Let_def x'_def y'_def split: if_splits)
    from True "1.prems" rd pos
    have rec: "brightness_walk value light_val x_val max_val x' y' (diff + 1) l = Some d"
      by (subst (asm) brightness_walk.simps) (auto simp add: Let_def x'_def y'_def split: if_splits)
    note ih = "1.IH" [OF True rd x'_def y'_def pos rec]
    have arr: "is_array value \<Longrightarrow> y < fst (shape value) \<and> x < snd (shape value)"
      using at2_Inr [OF rd] by simp
    show ?thesis
      using ih pos arr True by (auto simp add: x'_def y'_def split: if_splits)
  qed
qed

lemma brightness_bounds:
  assumes "brightness value x y light_val x_val max_val = Some d" and "0 < light_val"
  shows "1 \<le> d"
    and "\<not> max_val \<Longrightarrow> x_val \<Longrightarrow> 0 \<le> x - d"
    and "\<not> max_val \<Longrightarrow> \<not> x_val \<Longrightarrow> 0 \<le> y - d"
    and "max_val \<Longrightarrow> x_val \<Longrightarrow> is_array value \<Longrightarrow> x + d \<le> snd (shape value)"
    and "max_val \<Longrightarrow> \<not> x_val \<Longrightarrow> is_array value \<Longrightarrow> y + d \<le> fst (shape value)"
  using walk_bounds [OF assms(1) [unfolded brightness_def]] assms(2) by auto

lemmas zoom_simps = zoom_fit_zero_def walks_def bounding_box_def box_step_def brightness_def
  brightness_walk.simps at2_def item_def shape_def Let_def

text \<open>
  C4, as stated: when the four walks succeed the new upper bounds are below
  the old ones. With the dark sample at column 2 and row 2 of an array of 4
  columns and 4 rows, the walks to the right and downwards meet the bright
  sample in the last column and the last row: they succeed, and the upper
  bounds stay 3.
\<close>

theorem zoom_upper_kept_counterexample:
  "walks V4 (95 / 100) (bounding_box (2, 2) []) = (Some 2, Some 2, Some 2, Some 2) \<and>
   zoom_fit_zero [(2, 2)] V4 (0, 3) (0, 3) 1 (95 / 100) = Inr ((1, 3), (1, 3), 2 / 3) \<and>
   \<not> (3 :: real) < 3"
  by (simp add: zoom_simps V4_def)

text \<open>
  C4, amended: for a list of indices that is not empty, an array, a positive
  step and a positive \<open>light_val\<close>, when the four walks succeed and the
  function returns, the new lower bounds are above the old ones, the new upper
  bounds are at most the old ones and below them exactly when the walk stopped
  before the last column (row), and the new step times the old number of
  steps along the real axis is the new real width; so the number of samples
  along the real axis is kept whenever the new real range is not a single
  point.
\<close>

theorem zoom_shrinks:
  assumes arr: "is_array value" and step: "0 < step" and lv: "0 < light_val"
    and box: "bounding_box z rest = (x_max, x_min, y_max, y_min)"
    and wk: "walks value light_val (x_max, x_min, y_max, y_min) =
               (Some diff_x_min, Some diff_y_min, Some diff_x_max, Some diff_y_max)"
    and res: "zoom_fit_zero (z # rest) value (re_lo, re_hi) (im_lo, im_hi) step light_val =
               Inr ((new_re_lo, new_re_hi), (new_im_lo, new_im_hi), new_step)"
  shows "re_lo < new_re_lo \<and> new_re_hi \<le> re_hi \<and> im_lo < new_im_lo \<and> new_im_hi \<le> im_hi \<and>
         (new_re_hi < re_hi \<longleftrightarrow> x_max + diff_x_max < snd (shape value)) \<and>
         (new_im_hi < im_hi \<longleftrightarrow> y_max + diff_y_max < fst (shape value)) \<and>
         new_step * ((re_hi - re_lo) / step) = new_re_hi - new_re_lo \<and>
         (new_re_hi \<noteq> new_re_lo \<longrightarrow>
            (new_re_hi - new_re_lo) / new_step = (re_hi - re_lo) / step)"
proof -
  from wk have w1: "brightness value x_min y_min light_val True False = Some diff_x_min"
    and w2: "brightness value x_max y_min light_val False False = Some diff_y_min"
    and w3: "brightness value x_max y_max light_val True True = Some diff_x_max"
    and w4: "brightness value x_min y_max light_val False True = Some diff_y_max"
    by (simp_all add: walks_def)
  have a: "0 \<le> x_min - diff_x_min"
    using brightness_bounds(2) [OF w1 lv] by simp
  have b: "0 \<le> y_min - diff_y_min"
    using brightness_bounds(3) [OF w2 lv] by simp
  have c: "x_max + diff_x_max \<le> snd (shape value)"
    using brightness_bounds(4) [OF w3 lv] arr by simp
  have d: "y_max + diff_y_max \<le> fst (shape value)"
    using brightness_bounds(5) [OF w4 lv] arr by simp
  define n where "n = (re_hi - re_lo) / step"
  from res box wk step have n0: "n \<noteq> 0"
    by (auto simp add: zoom_fit_zero_def Let_def n_def split: if_splits)
  from res box wk step n0
  have lo_re: "new_re_lo = re_lo + of_int (x_min - diff_x_min + 1) * step"
    and hi_re: "new_re_hi = re_hi - of_int (snd (shape value) - x_max - diff_x_max) * step"
    and lo_im: "new_im_lo = im_lo + of_int (y_min - diff_y_min + 1) * step"
    and hi_im: "new_im_hi = im_hi - of_int (fst (shape value) - y_max - diff_y_max) * step"
    and st: "new_step = (new_re_hi - new_re_lo) / n"
    by (auto simp add: zoom_fit_zero_def Let_def n_def split: if_splits)
  have p1: "0 < real_of_int (x_min - diff_x_min + 1)" using a by simp
  have p2: "0 < real_of_int (y_min - diff_y_min + 1)" using b by simp
  have p3: "0 \<le> real_of_int (snd (shape value) - x_max - diff_x_max)" using c by simp
  have p4: "0 \<le> real_of_int (fst (shape value) - y_max - diff_y_max)" using d by simp
  have g1: "re_lo < new_re_lo"
    unfolding lo_re using p1 step by simp
  have g3: "im_lo < new_im_lo"
    unfolding lo_im using p2 step by simp
  have g2: "new_re_hi \<le> re_hi"
    unfolding hi_re using p3 step by simp
  have g4: "new_im_hi \<le> im_hi"
    unfolding hi_im using p4 step by simp
  have pos_iff: "0 < real_of_int k * step \<longleftrightarrow> 0 < k" for k
    using step by (simp add: zero_less_mult_iff)
  have g5: "new_re_hi < re_hi \<longleftrightarrow> x_max + diff_x_max < snd (shape value)"
    using pos_iff [of "snd (shape value) - x_max - diff_x_max"] unfolding hi_re by linarith
  have g6: "new_im_hi < im_hi \<longleftrightarrow> y_max + diff_y_max < fst (shape value)"
    using pos_iff [of "fst (shape value) - y_max - diff_y_max"] unfolding hi_im by linarith
  have g7: "new_step * n = new_re_hi - new_re_lo"
    unfolding st using n0 by simp
  have g8: "new_re_hi \<noteq> new_re_lo \<Longrightarrow> (new_re_hi - new_re_lo) / new_step = n"
    unfolding st using n0 by simp
  show ?thesis
    using g1 g2 g3 g4 g5 g6 g7 g8 unfolding n_def by blast
qed

theorem zoom_shrinks_witness:
  "is_array V5 \<and> bounding_box (2, 2) [] = (2, 2, 2, 2) \<and>
   walks V5 (95 / 100) (2, 2, 2, 2) = (Some 2, Some 2, Some 2, Some 2) \<and>
   zoom_fit_zero [(2, 2)] V5 (0, 4) (0, 4) 1 (95 / 100) = Inr ((1, 3), (1, 3), 1 / 2) \<and>
   (0 :: real) < 1 \<and> (1 :: real) < 4 \<and> (3 :: real) < 4 \<and> (1 / 2) * ((4 - 0) / 1) = (3 - 1 :: real)"
proof -
  have arr: "is_array V5"
    by (simp add: is_array_def shape_def V5_def)
  have box: "bounding_box (2, 2) [] = (2, 2, 2, 2)"
    by (simp add: bounding_box_def)
  have wk: "walks V5 (95 / 100) (2, 2, 2, 2) = (Some 2, Some 2, Some 2, Some 2)"
    by (simp add: zoom_simps V5_def)
  have res: "zoom_fit_zero [(2, 2)] V5 (0, 4) (0, 4) 1 (95 / 100) = Inr ((1, 3), (1, 3), 1 / 2)"
    by (simp add: zoom_simps V5_def)
  show ?thesis
    using zoom_shrinks [OF arr _ _ box wk res] arr box wk res by simp
qed

text \<open>
  When a walk returns \<^verbatim>\<open>None\<close>: on an array, from a start inside it and for
  a positive \<open>light_val\<close>, exactly when every sample that counts is below
  \<open>light_val\<close>. On a walk towards higher indices these are the samples from
  the start to the last index; on a walk towards lower indices they are the
  samples from the start down to index 1, the sample at index 0 being read
  but followed by the negative position.
\<close>

lemma at2_array:
  assumes "is_array a" and "0 \<le> y" and "y < fst (shape a)" and "0 \<le> x" and "x < snd (shape a)"
  shows "at2 a y x = Inr (a ! nat y ! nat x)"
proof -
  from assms(2,3) have r: "item a y = Inr (a ! nat y)" and m: "a ! nat y \<in> set a"
    by (simp_all add: item_def shape_def)
  from m assms(1) have "int (length (a ! nat y)) = snd (shape a)"
    by (simp add: is_array_def)
  with assms(4,5) have "item (a ! nat y) x = Inr (a ! nat y ! nat x)"
    by (simp add: item_def)
  with r show ?thesis
    by (simp add: at2_def)
qed

lemma at2_outside:
  assumes "is_array a" and "0 \<le> y" and "0 \<le> x" and "fst (shape a) \<le> y \<or> snd (shape a) \<le> x"
  shows "at2 a y x = Inl IndexError"
proof (cases "y < fst (shape a)")
  case False
  with assms(2) have "item a y = Inl IndexError"
    by (simp add: item_def shape_def)
  then show ?thesis by (simp add: at2_def)
next
  case True
  with assms(2) have r: "item a y = Inr (a ! nat y)" and m: "a ! nat y \<in> set a"
    by (simp_all add: item_def shape_def)
  from m assms(1) have "int (length (a ! nat y)) = snd (shape a)"
    by (simp add: is_array_def)
  with assms(3,4) True have "item (a ! nat y) x = Inl IndexError"
    by (simp add: item_def)
  with r show ?thesis by (simp add: at2_def)
qed

lemma int_all_shift:
  "(\<forall>k :: int. 0 \<le> k \<longrightarrow> Q k) \<longleftrightarrow> Q 0 \<and> (\<forall>k. 0 \<le> k \<longrightarrow> Q (k + 1))"
proof
  assume a: "\<forall>k. 0 \<le> k \<longrightarrow> Q k"
  then show "Q 0 \<and> (\<forall>k. 0 \<le> k \<longrightarrow> Q (k + 1))" by simp
next
  assume b: "Q 0 \<and> (\<forall>k. 0 \<le> k \<longrightarrow> Q (k + 1))"
  show "\<forall>k. 0 \<le> k \<longrightarrow> Q k"
  proof (intro allI impI)
    fix k :: int
    assume "0 \<le> k"
    show "Q k"
    proof (cases "k = 0")
      case True
      with b show ?thesis by simp
    next
      case False
      with \<open>0 \<le> k\<close> have "0 \<le> k - 1" by simp
      with b have "Q (k - 1 + 1)" by blast
      then show ?thesis by simp
    qed
  qed
qed

lemma walk_none:
  "is_array value \<Longrightarrow>
    0 \<le> x \<Longrightarrow> x < snd (shape value) \<Longrightarrow> 0 \<le> y \<Longrightarrow> y < fst (shape value) \<Longrightarrow>
    light < light_val \<Longrightarrow>
    (brightness_walk value light_val x_val max_val x y diff light = None) =
    (\<forall>k. counts value x_val max_val x y k \<longrightarrow> sample_at value x_val max_val x y k < light_val)"
proof (induction "value" light_val x_val max_val x y diff light rule: brightness_walk.induct)
  case (1 "value" light_val x_val max_val x y diff light)
  from "1.prems" have arr: "is_array value" and light: "light < light_val"
    by simp_all
  define x' where "x' = (if max_val then if x_val then x + 1 else x else if x_val then x - 1 else x)"
  define y' where "y' = (if max_val then if x_val then y else y + 1 else if x_val then y else y - 1)"
  define l where "l = value ! nat y ! nat x"
  have rd: "at2 value y x = Inr l"
    unfolding l_def using arr "1.prems" by (intro at2_array) simp_all
  have p0: "walk_pos x_val max_val x y 0 = (x, y)" and p1: "walk_pos x_val max_val x y 1 = (x', y')"
    by (simp_all add: walk_pos_def x'_def y'_def)
  have shift: "walk_pos x_val max_val x y (k + 1) = walk_pos x_val max_val x' y' k" for k
    by (simp add: walk_pos_def x'_def y'_def)
  have s0: "sample_at value x_val max_val x y 0 = l"
    by (simp add: sample_at_def p0 l_def)
  have unf: "brightness_walk value light_val x_val max_val x y diff light =
      (if x' < 0 \<or> y' < 0 then None
       else brightness_walk value light_val x_val max_val x' y' (diff + 1) l)"
    using light rd
    by (subst brightness_walk.simps) (simp add: Let_def x'_def y'_def)
  let ?R = "\<lambda>x y. \<forall>k. counts value x_val max_val x y k \<longrightarrow> sample_at value x_val max_val x y k < light_val"
  have split: "?R x y \<longleftrightarrow>
      (counts value x_val max_val x y 0 \<longrightarrow> l < light_val) \<and>
      (\<forall>k. 0 \<le> k \<longrightarrow> counts value x_val max_val x y (k + 1) \<longrightarrow>
         sample_at value x_val max_val x y (k + 1) < light_val)"
  proof -
    have "?R x y \<longleftrightarrow> (\<forall>k. 0 \<le> k \<longrightarrow> counts value x_val max_val x y k \<longrightarrow>
        sample_at value x_val max_val x y k < light_val)"
      by (auto simp add: counts_def)
    also have "\<dots> \<longleftrightarrow> (counts value x_val max_val x y 0 \<longrightarrow> sample_at value x_val max_val x y 0 < light_val) \<and>
      (\<forall>k. 0 \<le> k \<longrightarrow> counts value x_val max_val x y (k + 1) \<longrightarrow>
         sample_at value x_val max_val x y (k + 1) < light_val)"
      by (rule int_all_shift)
    finally show ?thesis
      by (simp only: s0)
  qed
  have cshift: "counts value x_val max_val x y (k + 1) = counts value x_val max_val x' y' k"
    if "0 \<le> k" for k
    unfolding counts_def shift using that by simp
  have sshift: "sample_at value x_val max_val x y (k + 1) = sample_at value x_val max_val x' y' k" for k
    unfolding sample_at_def shift by simp
  have later: "(\<forall>k. 0 \<le> k \<longrightarrow> counts value x_val max_val x y (k + 1) \<longrightarrow>
         sample_at value x_val max_val x y (k + 1) < light_val) \<longleftrightarrow> ?R x' y'"
  proof -
    have "(\<forall>k. 0 \<le> k \<longrightarrow> counts value x_val max_val x y (k + 1) \<longrightarrow>
         sample_at value x_val max_val x y (k + 1) < light_val) \<longleftrightarrow>
      (\<forall>k. 0 \<le> k \<longrightarrow> counts value x_val max_val x' y' k \<longrightarrow>
         sample_at value x_val max_val x' y' k < light_val)"
      by (simp add: cshift sshift cong: imp_cong)
    also have "\<dots> \<longleftrightarrow> ?R x' y'"
      by (auto simp add: counts_def)
    finally show ?thesis .
  qed
  show ?case
  proof (cases "x' < 0 \<or> y' < 0")
    case True
    then have dec: "\<not> max_val"
      using "1.prems" by (auto simp add: x'_def y'_def split: if_splits)
    have "\<not> counts value x_val max_val x y k" for k
      using True dec "1.prems" by (auto simp add: counts_def walk_pos_def x'_def y'_def split: if_splits)
    with True unf show ?thesis by simp
  next
    case pos: False
    have c0: "counts value x_val max_val x y 0"
      using pos "1.prems" by (simp add: counts_def p0 p1)
    show ?thesis
    proof (cases "l < light_val")
      case False
      then have "brightness_walk value light_val x_val max_val x' y' (diff + 1) l = Some (diff + 1)"
        by (subst brightness_walk.simps) simp
      with unf pos False c0 show ?thesis
        by (auto simp add: split)
    next
      case dark: True
      show ?thesis
      proof (cases "x' < snd (shape value) \<and> y' < fst (shape value)")
        case True
        from pos True have ih: "(brightness_walk value light_val x_val max_val x' y' (diff + 1) l = None) = ?R x' y'"
          using "1.IH" [OF light rd x'_def y'_def pos arr _ _ _ _ dark] by simp
        show ?thesis
          using unf pos ih dark by (simp add: split later)
      next
        case out: False
        have "at2 value y' x' = Inl IndexError"
          using arr pos out by (intro at2_outside) auto
        then have none: "brightness_walk value light_val x_val max_val x' y' (diff + 1) l = None"
          using dark by (subst brightness_walk.simps) simp
        have "\<not> counts value x_val max_val x' y' k" for k
        proof -
          from out pos "1.prems" have inc: "max_val"
            by (auto simp add: x'_def y'_def split: if_splits)
          show ?thesis
            using out inc by (auto simp add: counts_def walk_pos_def x'_def y'_def split: if_splits)
        qed
        then have "?R x' y'" by simp
        with unf pos none dark show ?thesis
          by (simp add: split later)
      qed
    qed
  qed
qed


lemma brightness_none:
  assumes "is_array value" and "0 \<le> x" and "x < snd (shape value)"
    and "0 \<le> y" and "y < fst (shape value)" and "0 < light_val"
  shows "(brightness value x y light_val x_val max_val = None) =
    (\<forall>k. counts value x_val max_val x y k \<longrightarrow> sample_at value x_val max_val x y k < light_val)"
  unfolding brightness_def using assms by (rule walk_none)

lemma brightness_up_x:
  assumes "is_array value" and "0 \<le> x" and "x < snd (shape value)"
    and "0 \<le> y" and "y < fst (shape value)" and "0 < light_val"
  shows "(brightness value x y light_val True True = None) =
    (\<forall>c. x \<le> c \<and> c < snd (shape value) \<longrightarrow> value ! nat y ! nat c < light_val)"
proof -
  have "(\<forall>k. counts value True True x y k \<longrightarrow> sample_at value True True x y k < light_val) =
      (\<forall>c. x \<le> c \<and> c < snd (shape value) \<longrightarrow> value ! nat y ! nat c < light_val)"
  proof (intro iffI allI impI)
    fix c
    assume a: "\<forall>k. counts value True True x y k \<longrightarrow> sample_at value True True x y k < light_val"
      and c: "x \<le> c \<and> c < snd (shape value)"
    from c assms have "counts value True True x y (c - x)"
      by (simp add: counts_def walk_pos_def)
    with a have "sample_at value True True x y (c - x) < light_val" by blast
    then show "value ! nat y ! nat c < light_val"
      by (simp add: sample_at_def walk_pos_def)
  next
    fix k
    assume a: "\<forall>c. x \<le> c \<and> c < snd (shape value) \<longrightarrow> value ! nat y ! nat c < light_val"
      and k: "counts value True True x y k"
    from k have "x \<le> x + k \<and> x + k < snd (shape value)"
      by (simp add: counts_def walk_pos_def)
    with a have "value ! nat y ! nat (x + k) < light_val" by blast
    then show "sample_at value True True x y k < light_val"
      by (simp add: sample_at_def walk_pos_def)
  qed
  with brightness_none [OF assms, of True True] show ?thesis
    by simp
qed

lemma brightness_down_x:
  assumes "is_array value" and "0 \<le> x" and "x < snd (shape value)"
    and "0 \<le> y" and "y < fst (shape value)" and "0 < light_val"
  shows "(brightness value x y light_val True False = None) =
    (\<forall>c. 1 \<le> c \<and> c \<le> x \<longrightarrow> value ! nat y ! nat c < light_val)"
proof -
  have "(\<forall>k. counts value True False x y k \<longrightarrow> sample_at value True False x y k < light_val) =
      (\<forall>c. 1 \<le> c \<and> c \<le> x \<longrightarrow> value ! nat y ! nat c < light_val)"
  proof (intro iffI allI impI)
    fix c
    assume a: "\<forall>k. counts value True False x y k \<longrightarrow> sample_at value True False x y k < light_val"
      and c: "1 \<le> c \<and> c \<le> x"
    from c assms have "counts value True False x y (x - c)"
      by (simp add: counts_def walk_pos_def)
    with a have "sample_at value True False x y (x - c) < light_val" by blast
    then show "value ! nat y ! nat c < light_val"
      by (simp add: sample_at_def walk_pos_def)
  next
    fix k
    assume a: "\<forall>c. 1 \<le> c \<and> c \<le> x \<longrightarrow> value ! nat y ! nat c < light_val"
      and k: "counts value True False x y k"
    from k have "1 \<le> x - k \<and> x - k \<le> x"
      by (simp add: counts_def walk_pos_def)
    with a have "value ! nat y ! nat (x - k) < light_val" by blast
    then show "sample_at value True False x y k < light_val"
      by (simp add: sample_at_def walk_pos_def)
  qed
  with brightness_none [OF assms, of True False] show ?thesis
    by simp
qed

lemma brightness_up_y:
  assumes "is_array value" and "0 \<le> x" and "x < snd (shape value)"
    and "0 \<le> y" and "y < fst (shape value)" and "0 < light_val"
  shows "(brightness value x y light_val False True = None) =
    (\<forall>r. y \<le> r \<and> r < fst (shape value) \<longrightarrow> value ! nat r ! nat x < light_val)"
proof -
  have "(\<forall>k. counts value False True x y k \<longrightarrow> sample_at value False True x y k < light_val) =
      (\<forall>r. y \<le> r \<and> r < fst (shape value) \<longrightarrow> value ! nat r ! nat x < light_val)"
  proof (intro iffI allI impI)
    fix r
    assume a: "\<forall>k. counts value False True x y k \<longrightarrow> sample_at value False True x y k < light_val"
      and r: "y \<le> r \<and> r < fst (shape value)"
    from r assms have "counts value False True x y (r - y)"
      by (simp add: counts_def walk_pos_def)
    with a have "sample_at value False True x y (r - y) < light_val" by blast
    then show "value ! nat r ! nat x < light_val"
      by (simp add: sample_at_def walk_pos_def)
  next
    fix k
    assume a: "\<forall>r. y \<le> r \<and> r < fst (shape value) \<longrightarrow> value ! nat r ! nat x < light_val"
      and k: "counts value False True x y k"
    from k have "y \<le> y + k \<and> y + k < fst (shape value)"
      by (simp add: counts_def walk_pos_def)
    with a have "value ! nat (y + k) ! nat x < light_val" by blast
    then show "sample_at value False True x y k < light_val"
      by (simp add: sample_at_def walk_pos_def)
  qed
  with brightness_none [OF assms, of False True] show ?thesis
    by simp
qed

lemma brightness_down_y:
  assumes "is_array value" and "0 \<le> x" and "x < snd (shape value)"
    and "0 \<le> y" and "y < fst (shape value)" and "0 < light_val"
  shows "(brightness value x y light_val False False = None) =
    (\<forall>r. 1 \<le> r \<and> r \<le> y \<longrightarrow> value ! nat r ! nat x < light_val)"
proof -
  have "(\<forall>k. counts value False False x y k \<longrightarrow> sample_at value False False x y k < light_val) =
      (\<forall>r. 1 \<le> r \<and> r \<le> y \<longrightarrow> value ! nat r ! nat x < light_val)"
  proof (intro iffI allI impI)
    fix r
    assume a: "\<forall>k. counts value False False x y k \<longrightarrow> sample_at value False False x y k < light_val"
      and r: "1 \<le> r \<and> r \<le> y"
    from r assms have "counts value False False x y (y - r)"
      by (simp add: counts_def walk_pos_def)
    with a have "sample_at value False False x y (y - r) < light_val" by blast
    then show "value ! nat r ! nat x < light_val"
      by (simp add: sample_at_def walk_pos_def)
  next
    fix k
    assume a: "\<forall>r. 1 \<le> r \<and> r \<le> y \<longrightarrow> value ! nat r ! nat x < light_val"
      and k: "counts value False False x y k"
    from k have "1 \<le> y - k \<and> y - k \<le> y"
      by (simp add: counts_def walk_pos_def)
    with a have "value ! nat (y - k) ! nat x < light_val" by blast
    then show "sample_at value False False x y k < light_val"
      by (simp add: sample_at_def walk_pos_def)
  qed
  with brightness_none [OF assms, of False False] show ?thesis
    by simp
qed

text \<open>
  The two early returns of \<^verbatim>\<open>zoom_fit_zero\<close>: the inputs come back as they
  are, without an exception, when the list of indices is empty and when one
  of the four walks returns \<^verbatim>\<open>None\<close>; for a positive \<open>light_val\<close> they come
  back unchanged in no other case.
\<close>

lemma zoom_early_returns:
  "(zero_index = [] \<or> walk_fails value light_val zero_index \<longrightarrow>
      zoom_fit_zero zero_index value re_range im_range step light_val =
        Inr (re_range, im_range, step)) \<and>
   (0 < light_val \<and>
      zoom_fit_zero zero_index value re_range im_range step light_val =
        Inr (re_range, im_range, step) \<longrightarrow>
      zero_index = [] \<or> walk_fails value light_val zero_index)"
proof (intro conjI impI)
  assume "zero_index = [] \<or> walk_fails value light_val zero_index"
  then show "zoom_fit_zero zero_index value re_range im_range step light_val =
      Inr (re_range, im_range, step)"
    by (auto simp add: zoom_fit_zero_def walk_fails_def split: list.splits prod.splits option.splits)
next
  assume h: "0 < light_val \<and>
      zoom_fit_zero zero_index value re_range im_range step light_val =
        Inr (re_range, im_range, step)"
  show "zero_index = [] \<or> walk_fails value light_val zero_index"
  proof (rule ccontr)
    assume n: "\<not> (zero_index = [] \<or> walk_fails value light_val zero_index)"
    then obtain z rest where zr: "zero_index = z # rest"
      by (cases zero_index) auto
    obtain x_max x_min y_max y_min where box: "bounding_box z rest = (x_max, x_min, y_max, y_min)"
      by (cases "bounding_box z rest") auto
    from n zr box obtain a b c d where
      wk: "walks value light_val (x_max, x_min, y_max, y_min) = (Some a, Some b, Some c, Some d)"
      by (auto simp add: walk_fails_def split: prod.splits option.splits)
    from wk have w1: "brightness value x_min y_min light_val True False = Some a"
      by (simp add: walks_def)
    have pos: "0 < real_of_int (x_min - a + 1)"
      using brightness_bounds(2) [OF w1] h by simp
    from h zr box wk have "step \<noteq> 0"
      by (auto simp add: zoom_fit_zero_def split: if_splits)
    moreover from h zr box wk
    have "fst re_range = fst re_range + real_of_int (x_min - a + 1) * step"
      by (auto simp add: zoom_fit_zero_def Let_def prod_eq_iff split: if_splits)
    ultimately show False
      using pos by simp
  qed
qed

text \<open>
  C6: the inputs come back unchanged only for an empty list and when a walk
  runs off the grid before the threshold is reached. The code returns them
  unchanged in a third case. In \<open>W5\<close> the dark sample is at column 1 of row 2;
  the walk towards column 0 reads the sample at column 0, which is 1 and so
  at least \<open>light_val = 0.95\<close>: the threshold is reached inside the grid. The
  position is then \<open>- 1\<close>, the test \<^verbatim>\<open>x < 0\<close> raises before the loop looks
  at the brightness just read, the walk returns \<^verbatim>\<open>None\<close> and the inputs
  come back unchanged, the three other walks having succeeded. In the mirror
  image \<open>M5\<close>, dark at column 3 of row 2, the walk towards the last column
  reads the bright sample at column 4 and returns 2, and the window is changed.
  In \<open>L5\<close> the row is dark down to column 0: there the walk does run off the
  grid before the threshold, the case of the claim.
\<close>

theorem zoom_abort_at_first_column:
  "at2 W5 2 0 = Inr 1 \<and> (95 / 100 :: real) \<le> 1 \<and>
   walks W5 (95 / 100) (bounding_box (1, 2) []) = (None, Some 2, Some 2, Some 2) \<and>
   zoom_fit_zero [(1, 2)] W5 (0, 4) (0, 4) 1 (95 / 100) = Inr ((0, 4), (0, 4), 1) \<and>
   at2 M5 2 4 = Inr 1 \<and>
   walks M5 (95 / 100) (bounding_box (3, 2) []) = (Some 2, Some 2, Some 2, Some 2) \<and>
   zoom_fit_zero [(3, 2)] M5 (0, 4) (0, 4) 1 (95 / 100) = Inr ((2, 4), (1, 3), 1 / 2) \<and>
   at2 L5 2 0 = Inr 0 \<and>
   walks L5 (95 / 100) (bounding_box (1, 2) []) = (None, Some 2, Some 2, Some 2) \<and>
   zoom_fit_zero [(1, 2)] L5 (0, 4) (0, 4) 1 (95 / 100) = Inr ((0, 4), (0, 4), 1)"
  by (simp add: zoom_simps W5_def M5_def L5_def)

section \<open>Axes outside the window\<close>

text \<open>
  C7: when neither \<open>im_range\<close> nor \<open>re_range\<close> has 0 strictly inside,
  \<^verbatim>\<open>branch_cut\<close> returns \<^verbatim>\<open>False\<close> for every hue array, brightness array
  and step, also for arrays on which every read would raise.
\<close>

theorem branch_cut_axes_outside:
  assumes "\<not> (fst im_range < 0 \<and> 0 < snd im_range)" and "\<not> (fst re_range < 0 \<and> 0 < snd re_range)"
  shows "branch_cut hue value re_range im_range step = Inr False"
  using assms by (simp add: branch_cut_def Let_def)

theorem branch_cut_axes_outside_witness:
  "\<not> (fst (1::real, 21::real) < 0 \<and> 0 < snd (1::real, 21::real)) \<and>
   branch_cut [] [] (1, 21) (1, 21) (1 / 20) = Inr False"
  using branch_cut_axes_outside [of "(1, 21)" "(1, 21)" "[]" "[]" "1 / 20"] by simp

section \<open>The range of the colors\<close>

subsection \<open>The hue\<close>

lemma py_mod_range:
  assumes "0 < y"
  shows "0 \<le> py_mod x y \<and> py_mod x y < y"
proof -
  have "of_int \<lfloor>x / y\<rfloor> * y \<le> x"
    using assms by (rule floor_divide_lower)
  moreover have "x < (of_int \<lfloor>x / y\<rfloor> + 1) * y"
    using assms by (rule floor_divide_upper)
  ultimately show ?thesis
    by (simp add: py_mod_def algebra_simps)
qed

lemma hue_of_range: "0 \<le> hue_of z \<and> hue_of z < 1"
proof -
  have p: "0 < 2 * pi" by simp
  from py_mod_range [OF p, of "Arg z + 2 * pi"] show ?thesis
    by (simp add: hue_of_def)
qed

lemma hue_of_eq:
  "hue_of w = (if 0 \<le> Arg w then Arg w / (2 * pi) else (Arg w + 2 * pi) / (2 * pi))"
proof (cases "0 \<le> Arg w")
  case True
  have b: "Arg w \<le> pi" using Arg_bounded [of w] by simp
  have "\<lfloor>(Arg w + 2 * pi) / (2 * pi)\<rfloor> = 1"
  proof (rule floor_unique)
    show "of_int 1 \<le> (Arg w + 2 * pi) / (2 * pi)"
      using True by (simp add: field_simps)
    show "(Arg w + 2 * pi) / (2 * pi) < of_int 1 + 1"
      using b pi_gt_zero by (simp add: field_simps; linarith)
  qed
  then show ?thesis
    using True by (simp add: hue_of_def py_mod_def field_simps)
next
  case False
  have b: "- pi < Arg w" using Arg_bounded [of w] by simp
  have "\<lfloor>(Arg w + 2 * pi) / (2 * pi)\<rfloor> = 0"
  proof (rule floor_unique)
    show "of_int 0 \<le> (Arg w + 2 * pi) / (2 * pi)"
      using b pi_gt_zero by (simp add: field_simps; linarith)
    show "(Arg w + 2 * pi) / (2 * pi) < of_int 0 + 1"
      using False pi_gt_zero by (simp add: field_simps; linarith)
  qed
  then show ?thesis
    using False by (simp add: hue_of_def py_mod_def)
qed

subsection \<open>Bounds of pi\<close>

text \<open>
  The partial sums of the series of the arc tangent enclose it, and the formula
  of Machin gives \<open>pi\<close> to seventeen digits.
\<close>

lemma arctan_bracket:
  assumes "0 < x" and "x \<le> 1"
  shows "arctan_sum x (2 * n) \<le> arctan x \<and> arctan x \<le> arctan_sum x (2 * n + 1)"
proof -
  have a: "\<bar>x\<bar> \<le> 1" using assms by simp
  have "0 < 1 / real (0 * 2 + 1) * x ^ (0 * 2 + 1)"
    using assms by simp
  with summable_Leibniz(2) [OF zeroseq_arctan_series [OF a] monoseq_arctan_series [OF a]]
  have "(\<Sum>i. (- 1) ^ i * (1 / real (i * 2 + 1) * x ^ (i * 2 + 1)))
      \<in> {arctan_sum x (2 * n) .. arctan_sum x (2 * n + 1)}"
    unfolding arctan_sum_def by blast
  then show ?thesis
    by (simp add: arctan_series [OF a])
qed

lemma pi_bounds: "31415926535897932 / 10000000000000000 < pi \<and> pi < 31415926535897933 / 10000000000000000"
proof -
  have m: "pi = 16 * arctan (1 / 5) - 4 * arctan (1 / 239)"
    using machin by simp
  have l5: "arctan_sum (1 / 5) 12 \<le> arctan (1 / 5)"
    using arctan_bracket [of "1 / 5" 6] by simp
  have u5: "arctan (1 / 5) \<le> arctan_sum (1 / 5) 13"
    using arctan_bracket [of "1 / 5" 6] by simp
  have l239: "arctan_sum (1 / 239) 4 \<le> arctan (1 / 239)"
    using arctan_bracket [of "1 / 239" 2] by simp
  have u239: "arctan (1 / 239) \<le> arctan_sum (1 / 239) 5"
    using arctan_bracket [of "1 / 239" 2] by simp
  have lo: "31415926535897932 / 10000000000000000 < 16 * arctan_sum (1 / 5) 12 - 4 * arctan_sum (1 / 239) 5"
    by (simp add: arctan_sum_def eval_nat_numeral)
  have hi: "16 * arctan_sum (1 / 5) 13 - 4 * arctan_sum (1 / 239) 4 < 31415926535897933 / 10000000000000000"
    by (simp add: arctan_sum_def eval_nat_numeral)
  show ?thesis
    using m l5 u5 l239 u239 lo hi by linarith
qed

subsection \<open>Rounding to a double\<close>

lemma py_round_near:
  assumes "\<bar>t - of_int n\<bar> < 1 / 2"
  shows "py_round t = n"
proof -
  have "\<lfloor>t\<rfloor> = n \<or> \<lfloor>t\<rfloor> = n - 1"
    using assms by linarith
  then show ?thesis
  proof
    assume f: "\<lfloor>t\<rfloor> = n"
    then have "t - of_int n < 1 / 2" using assms by linarith
    with f show ?thesis by (simp add: py_round_def)
  next
    assume f: "\<lfloor>t\<rfloor> = n - 1"
    then have "t < of_int n" by linarith
    then have "t - of_int (n - 1) > 1 / 2" using assms by simp
    with f show ?thesis by (simp add: py_round_def)
  qed
qed

lemma py_round_le:
  assumes "t \<le> of_int n + 1 / 2" and "even n"
  shows "py_round t \<le> n"
proof -
  have f: "\<lfloor>t\<rfloor> \<le> n"
    using assms by linarith
  show ?thesis
  proof (cases "\<lfloor>t\<rfloor> = n")
    case True
    then have "t - of_int \<lfloor>t\<rfloor> \<le> 1 / 2"
      using assms by simp
    with True assms show ?thesis
      by (simp add: py_round_def Let_def)
  next
    case False
    with f have "\<lfloor>t\<rfloor> + 1 \<le> n" by simp
    then show ?thesis
      by (simp add: py_round_def Let_def)
  qed
qed

lemma py_round_le_int:
  assumes "t \<le> of_int n"
  shows "py_round t \<le> n"
  using assms unfolding py_round_def Let_def
  by (auto; linarith)

lemma py_round_nonneg: "0 \<le> t \<Longrightarrow> 0 \<le> py_round t"
  unfolding py_round_def Let_def by (auto; linarith)

lemma py_round_err: "\<bar>of_int (py_round t) - t\<bar> \<le> 1 / 2"
  unfolding py_round_def Let_def by (auto; linarith)

lemma pow2: "2 powr of_int k = (2::real) powi k"
  by (rule powr_real_of_int') simp_all

lemma binade_eq:
  assumes "0 < x" and "2 powi e \<le> x" and "x < 2 powi (e + 1)" and "- 1022 \<le> e"
  shows "binade x = e"
proof -
  have p: "2 powr of_int k = (2::real) powi k" for k
    by (rule powr_real_of_int') simp_all
  have "of_int e \<le> log 2 x"
    using assms p [of e] by (simp add: le_log_iff)
  moreover have "log 2 x < of_int (e + 1)"
    using assms p [of "e + 1"] by (simp add: log_less_iff del: of_int_add)
  ultimately have "\<lfloor>log 2 x\<rfloor> = e"
    by (simp add: floor_eq_iff)
  with assms show ?thesis
    by (simp add: binade_def)
qed

lemma to_double_eval:
  assumes "0 < x" and "2 powi e \<le> x" and "x < 2 powi (e + 1)" and "- 1022 \<le> e"
  shows "to_double x = of_int (py_round (x / 2 powi (e - 52))) * 2 powi (e - 52)"
  using assms binade_eq [OF assms] by (simp add: to_double_def ulp_def)

lemma ulp_pos: "0 < ulp x"
  by (simp add: ulp_def)

lemma to_double_nonneg:
  assumes "0 \<le> x"
  shows "0 \<le> to_double x"
proof (cases "x = 0")
  case True
  then show ?thesis by (simp add: to_double_def)
next
  case False
  have "0 \<le> \<bar>x\<bar> / ulp x"
    using ulp_pos [of x] by simp
  then have "0 \<le> py_round (\<bar>x\<bar> / ulp x)"
    by (rule py_round_nonneg)
  with assms False ulp_pos [of x] show ?thesis
    by (simp add: to_double_def)
qed

lemma binade_upper:
  assumes "0 < x"
  shows "x < 2 powi (binade x + 1)"
proof -
  have "log 2 x < of_int \<lfloor>log 2 x\<rfloor> + 1"
    by linarith
  also have "\<dots> \<le> of_int (binade x + 1)"
    using assms by (simp add: binade_def)
  finally have "x < 2 powr of_int (binade x + 1)"
    using assms by (simp add: log_less_iff del: of_int_add)
  then show ?thesis
    by (simp only: pow2)
qed

lemma to_double_le_power:
  assumes "0 < x"
  shows "to_double x \<le> 2 powi (binade x + 1)"
proof -
  have u: "ulp x * 2 ^ 53 = 2 powi (binade x + 1)"
    by (simp add: ulp_def power_int_diff power_int_add)
  have "x / ulp x \<le> of_int (2 ^ 53)"
    using binade_upper [OF assms] ulp_pos [of x] u by (simp add: field_simps)
  then have "py_round (x / ulp x) \<le> 2 ^ 53"
    by (rule py_round_le_int)
  then have "real_of_int (py_round (x / ulp x)) \<le> of_int (2 ^ 53)"
    by (simp only: of_int_le_iff)
  then have "real_of_int (py_round (x / ulp x)) \<le> 2 ^ 53"
    by simp
  then have "real_of_int (py_round (x / ulp x)) * ulp x \<le> 2 ^ 53 * ulp x"
    using ulp_pos [of x] by (simp only: mult_le_cancel_right_pos)
  with assms u show ?thesis
    by (simp add: to_double_def mult.commute)
qed

lemma to_double_le_one:
  assumes "0 \<le> x" and "x \<le> 1 + 1 / 2 ^ 53"
  shows "to_double x \<le> 1"
proof -
  consider "x = 0" | "0 < x" "x < 1" | "1 \<le> x"
    using assms by linarith
  then show ?thesis
  proof cases
    case 1
    then show ?thesis by (simp add: to_double_def)
  next
    case 2
    then have "log 2 x < 0" by simp
    then have "\<lfloor>log 2 x\<rfloor> \<le> - 1" by linarith
    then have "binade x + 1 \<le> 0"
      using 2 by (simp add: binade_def)
    then have "(2::real) powi (binade x + 1) \<le> 2 powi 0"
      by (intro power_int_increasing) simp_all
    with to_double_le_power [OF 2(1)] show ?thesis by simp
  next
    case 3
    have e: "to_double x = of_int (py_round (x / 2 powi (0 - 52))) * 2 powi (0 - 52)"
      using 3 assms by (intro to_double_eval) simp_all
    have "x * 2 ^ 52 \<le> of_int (2 ^ 52) + 1 / 2"
      using assms by simp
    then have "py_round (x * 2 ^ 52) \<le> 2 ^ 52"
      by (rule py_round_le) simp
    then have "real_of_int (py_round (x * 2 ^ 52)) \<le> of_int (2 ^ 52)"
      by (simp only: of_int_le_iff)
    then have "real_of_int (py_round (x * 2 ^ 52)) \<le> 2 ^ 52"
      by simp
    with e show ?thesis
      by (simp add: power_int_minus field_simps)
  qed
qed

lemma to_double_err: "\<bar>to_double x - x\<bar> \<le> \<bar>x\<bar> / 2 ^ 53 + 1 / 2 ^ 60"
proof (cases "x = 0")
  case True
  then show ?thesis by (simp add: to_double_def)
next
  case False
  define u where "u = ulp x"
  define k where "k = py_round (\<bar>x\<bar> / u)"
  have u: "0 < u"
    unfolding u_def by (rule ulp_pos)
  have "\<bar>of_int k - \<bar>x\<bar> / u\<bar> \<le> 1 / 2"
    unfolding k_def by (rule py_round_err)
  then have "\<bar>of_int k - \<bar>x\<bar> / u\<bar> * u \<le> 1 / 2 * u"
    using u by (simp only: mult_le_cancel_right_pos)
  moreover have "\<bar>of_int k - \<bar>x\<bar> / u\<bar> * u = \<bar>of_int k * u - \<bar>x\<bar>\<bar>"
  proof -
    have "\<bar>of_int k - \<bar>x\<bar> / u\<bar> * u = \<bar>(of_int k - \<bar>x\<bar> / u) * u\<bar>"
      using u by (simp add: abs_mult)
    also have "(of_int k - \<bar>x\<bar> / u) * u = of_int k * u - \<bar>x\<bar>"
      using u by (simp add: field_simps)
    finally show ?thesis .
  qed
  ultimately have near: "\<bar>of_int k * u - \<bar>x\<bar>\<bar> \<le> u / 2"
    by simp
  have "sgn x * (of_int k * u - \<bar>x\<bar>) = sgn x * of_int k * u - sgn x * \<bar>x\<bar>"
    by (simp add: algebra_simps)
  also have "\<dots> = to_double x - x"
    using False by (simp add: to_double_def u_def k_def mult_sgn_abs)
  finally have "to_double x - x = sgn x * (of_int k * u - \<bar>x\<bar>)"
    by simp
  then have "\<bar>to_double x - x\<bar> = \<bar>of_int k * u - \<bar>x\<bar>\<bar>"
    using False by (simp add: abs_mult abs_sgn_eq)
  with near have err: "\<bar>to_double x - x\<bar> \<le> u / 2"
    by simp
  have "u / 2 \<le> \<bar>x\<bar> / 2 ^ 53 + 1 / 2 ^ 60"
  proof (cases "- 1022 \<le> \<lfloor>log 2 \<bar>x\<bar>\<rfloor>")
    case True
    then have b: "binade x = \<lfloor>log 2 \<bar>x\<bar>\<rfloor>"
      by (simp add: binade_def)
    have "of_int (binade x) \<le> log 2 \<bar>x\<bar>"
      unfolding b by simp
    then have "2 powr of_int (binade x) \<le> \<bar>x\<bar>"
      using False by (simp add: le_log_iff)
    then have "2 powi binade x \<le> \<bar>x\<bar>"
      by (simp only: pow2)
    moreover have "u = 2 powi binade x / 2 ^ 52"
      by (simp add: u_def ulp_def power_int_diff)
    ultimately show ?thesis
      by simp
  next
    case False
    then have "binade x = - 1022"
      by (simp add: binade_def)
    then have "u = 2 powi (- 1074)"
      by (simp add: u_def ulp_def)
    also have "\<dots> \<le> 2 powi (- 59)"
      by (intro power_int_increasing) simp_all
    finally have "u \<le> 1 / 2 ^ 59"
      by (simp add: power_int_minus field_simps)
    then show ?thesis
      by simp
  qed
  with err show ?thesis
    by linarith
qed

subsection \<open>The brightness in double precision\<close>

lemma to_double_big: "to_double (10 ^ 17) = 10 ^ 17"
  using to_double_eval [of "10 ^ 17" 56] by (simp add: py_round_def)

lemma to_double_two_over_pi: "to_double (2 / np_pi) = 5734161139222659 / 2 ^ 53"
  using to_double_eval [of "2 / np_pi" "- 1"] by (simp add: np_pi_def py_round_def)

lemma to_double_product: "to_double (5734161139222659 / 2 ^ 53 * (np_pi / 2)) = 1"
  using to_double_eval [of "5734161139222659 / 2 ^ 53 * (np_pi / 2)" 0] by (simp add: np_pi_def py_round_def)

lemma to_double_arctan_le:
  assumes "0 \<le> m"
  shows "0 \<le> to_double (arctan m) \<and> to_double (arctan m) \<le> np_pi / 2"
proof
  show "0 \<le> to_double (arctan m)"
    using assms by (intro to_double_nonneg) simp
  show "to_double (arctan m) \<le> np_pi / 2"
  proof (cases "arctan m < 1")
    case True
    have "to_double (arctan m) \<le> 1"
      using assms True by (intro to_double_le_one) simp_all
    then show ?thesis
      by (simp add: np_pi_def)
  next
    case False
    have lt: "arctan m < 31415926535897933 / 10000000000000000 / 2"
      using arctan_ubound [of m] pi_bounds by linarith
    have pos: "0 < arctan m"
      using False by linarith
    have ge: "2 powi 0 \<le> arctan m"
      using False by simp
    have "arctan m < 2"
      using lt by linarith
    then have less: "arctan m < 2 powi (0 + 1)"
      by simp
    have e: "to_double (arctan m) = of_int (py_round (arctan m / 2 powi (0 - 52))) * 2 powi (0 - 52)"
      using pos ge less by (rule to_double_eval) simp
    have "arctan m * 2 ^ 52 \<le> of_int 7074237752028440 + 1 / 2"
      using lt by simp
    then have "py_round (arctan m * 2 ^ 52) \<le> 7074237752028440"
      by (rule py_round_le) simp
    then have "real_of_int (py_round (arctan m * 2 ^ 52)) \<le> 7074237752028440"
      by linarith
    with e show ?thesis
      by (simp add: power_int_minus field_simps np_pi_def)
  qed
qed

lemma value_of_range: "0 \<le> value_of z \<and> value_of z \<le> 1"
proof -
  let ?a = "to_double (arctan (to_double (cmod z)))"
  have m: "0 \<le> to_double (cmod z)"
    by (intro to_double_nonneg) simp
  note a = to_double_arctan_le [OF m]
  have c: "to_double (2 / np_pi) = 5734161139222659 / 2 ^ 53"
    by (rule to_double_two_over_pi)
  have lo: "0 \<le> to_double (2 / np_pi) * ?a"
    using a c by simp
  have "to_double (2 / np_pi) * ?a \<le> to_double (2 / np_pi) * (np_pi / 2)"
    using a c by (intro mult_left_mono) simp_all
  also have "\<dots> = 5734161139222659 / 2 ^ 53 * (np_pi / 2)"
    by (simp only: c)
  also have "\<dots> \<le> 1 + 1 / 2 ^ 53"
    by (simp add: np_pi_def)
  finally have hi: "to_double (2 / np_pi) * ?a \<le> 1 + 1 / 2 ^ 53" .
  show ?thesis
    unfolding value_of_def using to_double_nonneg [OF lo] to_double_le_one [OF lo hi] by simp
qed

lemma to_double_arctan_big: "to_double (arctan (10 ^ 17)) = np_pi / 2"
proof -
  have inv: "arctan (1 / 10 ^ 17) = pi / 2 - arctan (10 ^ 17)"
    using arctan_inverse [of "10 ^ 17"] by simp
  have small: "0 < arctan (1 / 10 ^ 17) \<and> arctan (1 / 10 ^ 17) \<le> 1 / 100000000000000000"
    using arctan_bracket [of "1 / 10 ^ 17" 0] by (simp add: arctan_sum_def)
  let ?y = "arctan (10 ^ 17)"
  have lo: "31415926535897932 / 10000000000000000 / 2 - 1 / 100000000000000000 < ?y"
    using inv small pi_bounds by linarith
  have hi: "?y < 31415926535897933 / 10000000000000000 / 2"
    using inv small pi_bounds by linarith
  have pos: "0 < ?y"
    by simp
  have "1 \<le> ?y"
    using lo by linarith
  then have ge: "2 powi 0 \<le> ?y"
    by simp
  have "?y < 2"
    using hi by linarith
  then have less: "?y < 2 powi (0 + 1)"
    by simp
  have e: "to_double ?y = of_int (py_round (?y / 2 powi (0 - 52))) * 2 powi (0 - 52)"
    using pos ge less by (rule to_double_eval) simp
  have "\<bar>?y * 2 ^ 52 - of_int 7074237752028440\<bar> < 1 / 2"
    using lo hi by simp
  then have "py_round (?y * 2 ^ 52) = 7074237752028440"
    by (rule py_round_near)
  with e show ?thesis
    by (simp add: power_int_minus field_simps np_pi_def)
qed

lemma value_of_big: "value_of (10 ^ 17) = 1"
proof -
  have "cmod (10 ^ 17) = 10 ^ 17"
    by (simp add: norm_power)
  then have "value_of (10 ^ 17) = to_double (to_double (2 / np_pi) * to_double (arctan (to_double (10 ^ 17))))"
    by (simp only: value_of_def)
  also have "\<dots> = to_double (5734161139222659 / 2 ^ 53 * (np_pi / 2))"
    by (simp only: to_double_big to_double_arctan_big to_double_two_over_pi)
  also have "\<dots> = 1"
    by (rule to_double_product)
  finally show ?thesis .
qed

lemma value_of_zero: "value_of 0 = 0"
  by (simp add: value_of_def to_double_def)

lemma arctan_diff_le:
  assumes "0 \<le> a" and "a \<le> b"
  shows "arctan b - arctan a \<le> (b - a) / (1 + a\<^sup>2)"
proof (cases "a = b")
  case True
  then show ?thesis by simp
next
  case False
  with assms have "a < b" by simp
  from MVT2 [OF this, of arctan "\<lambda>x. inverse (1 + x\<^sup>2)"]
  obtain z where z: "a < z" "z < b" "arctan b - arctan a = (b - a) * inverse (1 + z\<^sup>2)"
    using DERIV_arctan by blast
  have "a\<^sup>2 \<le> z\<^sup>2"
    using assms z by (intro power_mono) simp_all
  then have "inverse (1 + z\<^sup>2) \<le> inverse (1 + a\<^sup>2)"
    by (intro le_imp_inverse_le) (simp_all add: add_pos_nonneg)
  then have "(b - a) * inverse (1 + z\<^sup>2) \<le> (b - a) * inverse (1 + a\<^sup>2)"
    using assms by (intro mult_left_mono) simp_all
  with z show ?thesis
    by (simp add: divide_inverse)
qed

lemma arctan_close:
  assumes "0 \<le> r" and "0 \<le> m" and "\<bar>m - r\<bar> \<le> r / 2 ^ 53 + 1 / 2 ^ 60"
  shows "\<bar>arctan m - arctan r\<bar> \<le> 1 / 2 ^ 52"
proof -
  define lo where "lo = min m r"
  define hi where "hi = max m r"
  have lo: "0 \<le> lo" "lo \<le> hi" and d: "hi - lo = \<bar>m - r\<bar>"
    using assms by (simp_all add: lo_def hi_def)
  have eq: "\<bar>arctan m - arctan r\<bar> = arctan hi - arctan lo"
    by (cases "m \<le> r") (simp_all add: lo_def hi_def arctan_le_iff min_def max_def)
  have "\<bar>m - r\<bar> \<le> (1 + lo\<^sup>2) / 2 ^ 52"
  proof (cases "r \<le> 1")
    case True
    have "\<bar>m - r\<bar> \<le> 1 / 2 ^ 52"
      using True assms by simp
    also have "\<dots> \<le> (1 + lo\<^sup>2) / 2 ^ 52"
      by simp
    finally show ?thesis .
  next
    case False
    have "r / 2 \<le> lo"
      using False assms by (simp add: lo_def min_def; linarith)
    then have "(r / 2)\<^sup>2 \<le> lo\<^sup>2"
      using assms by (intro power_mono) simp_all
    moreover have "0 \<le> (r / 2 - 1)\<^sup>2"
      by simp
    then have "r \<le> 1 + (r / 2)\<^sup>2"
      by (simp add: power2_eq_square algebra_simps)
    ultimately have "r \<le> 1 + lo\<^sup>2"
      by linarith
    with False assms show ?thesis
      by (simp add: field_simps; linarith)
  qed
  then have "(hi - lo) / (1 + lo\<^sup>2) \<le> 1 / 2 ^ 52"
    unfolding d by (simp add: field_simps add_pos_nonneg)
  with arctan_diff_le [OF lo] eq show ?thesis
    by linarith
qed

lemma two_over_pi_err: "0 \<le> 5734161139222659 / 2 ^ 53 - 2 / pi \<and> 5734161139222659 / 2 ^ 53 - 2 / pi \<le> 1 / 2 ^ 53"
proof -
  let ?c = "5734161139222659 / 2 ^ 53 :: real"
  have "0 \<le> ?c * pi - 2" and "?c * pi - 2 \<le> 1 / 2 ^ 52"
    using pi_bounds by simp_all
  moreover have "?c - 2 / pi = (?c * pi - 2) / pi"
    by (simp add: field_simps)
  moreover have "2 \<le> pi" by (rule pi_ge_two)
  ultimately show ?thesis
    by (simp add: field_simps; linarith)
qed

lemma value_of_error: "\<bar>value_of z - 2 / pi * arctan (cmod z)\<bar> \<le> 1 / 2 ^ 48"
proof -
  define r where "r = cmod z"
  define m where "m = to_double r"
  define a where "a = to_double (arctan m)"
  define c :: real where "c = 5734161139222659 / 2 ^ 53"
  have r: "0 \<le> r"
    by (simp add: r_def)
  have m: "0 \<le> m"
    unfolding m_def using r by (rule to_double_nonneg)
  have "\<bar>m - r\<bar> \<le> \<bar>r\<bar> / 2 ^ 53 + 1 / 2 ^ 60"
    unfolding m_def by (rule to_double_err)
  with r have "\<bar>m - r\<bar> \<le> r / 2 ^ 53 + 1 / 2 ^ 60"
    by simp
  with r m have e1: "\<bar>arctan m - arctan r\<bar> \<le> 1 / 2 ^ 52"
    by (rule arctan_close)
  have am: "0 \<le> arctan m" "arctan m < 2"
    using m arctan_ubound [of m] pi_half_less_two by simp_all
  have "\<bar>a - arctan m\<bar> \<le> \<bar>arctan m\<bar> / 2 ^ 53 + 1 / 2 ^ 60"
    unfolding a_def by (rule to_double_err)
  with am have e2: "\<bar>a - arctan m\<bar> \<le> 1 / 2 ^ 52 + 1 / 2 ^ 60"
    by simp
  have ar: "0 \<le> arctan r" "arctan r < 2"
    using r arctan_ubound [of r] pi_half_less_two by simp_all
  have a: "0 \<le> a" "a \<le> np_pi / 2"
    unfolding a_def using to_double_arctan_le [OF m] by simp_all
  have c: "0 \<le> c" "c \<le> 1" "0 \<le> c - 2 / pi" "c - 2 / pi \<le> 1 / 2 ^ 53"
    unfolding c_def using two_over_pi_err by simp_all
  have ca: "0 \<le> c * a" "c * a \<le> 2"
  proof -
    show "0 \<le> c * a" using c a by simp
    have "c * a \<le> 1 * (np_pi / 2)"
      using c a by (intro mult_mono) simp_all
    then show "c * a \<le> 2"
      by (simp add: np_pi_def)
  qed
  have "\<bar>to_double (c * a) - c * a\<bar> \<le> \<bar>c * a\<bar> / 2 ^ 53 + 1 / 2 ^ 60"
    by (rule to_double_err)
  with ca have e3: "\<bar>to_double (c * a) - c * a\<bar> \<le> 1 / 2 ^ 52 + 1 / 2 ^ 60"
    by simp
  have "\<bar>c * (a - arctan r)\<bar> = c * \<bar>a - arctan r\<bar>"
    using c by (simp add: abs_mult)
  also have "\<dots> \<le> 1 * \<bar>a - arctan r\<bar>"
    using c by (intro mult_right_mono) simp_all
  finally have e4: "\<bar>c * (a - arctan r)\<bar> \<le> \<bar>a - arctan r\<bar>"
    by simp
  have "\<bar>(c - 2 / pi) * arctan r\<bar> = (c - 2 / pi) * arctan r"
    using c ar by simp
  also have "\<dots> \<le> 1 / 2 ^ 53 * 2"
    using c ar by (intro mult_mono) simp_all
  finally have e5: "\<bar>(c - 2 / pi) * arctan r\<bar> \<le> 1 / 2 ^ 52"
    by simp
  have split: "to_double (c * a) - 2 / pi * arctan r =
      (to_double (c * a) - c * a) + c * (a - arctan r) + (c - 2 / pi) * arctan r"
    by (simp add: algebra_simps)
  define d1 where "d1 = to_double (c * a) - c * a"
  define d2 where "d2 = c * (a - arctan r)"
  define d3 where "d3 = (c - 2 / pi) * arctan r"
  define d4 where "d4 = a - arctan m"
  define d5 where "d5 = arctan m - arctan r"
  have "\<bar>d1\<bar> \<le> 3 / 2 ^ 53" and "\<bar>d2\<bar> \<le> \<bar>d4 + d5\<bar>" and "\<bar>d3\<bar> \<le> 2 / 2 ^ 53"
    and "\<bar>d4\<bar> \<le> 3 / 2 ^ 53" and "\<bar>d5\<bar> \<le> 2 / 2 ^ 53"
    using e1 e2 e3 e4 e5 by (simp_all add: d1_def d2_def d3_def d4_def d5_def)
  then have "\<bar>d1 + d2 + d3\<bar> \<le> 10 / 2 ^ 53"
    by linarith
  also have "\<dots> \<le> (1::real) / 2 ^ 48"
    by simp
  finally have "\<bar>to_double (c * a) - 2 / pi * arctan r\<bar> \<le> 1 / 2 ^ 48"
    unfolding split d1_def d2_def d3_def .
  moreover have "value_of z = to_double (c * a)"
    by (simp only: value_of_def c_def a_def m_def r_def to_double_two_over_pi)
  ultimately show ?thesis
    by (simp add: r_def)
qed

text \<open>
  C8, as stated: every brightness is \<open>(2 / pi) * atan(|z|)\<close> and lies in the
  interval from 0 (included) to 1 (excluded). At the sample \<open>10 ^ 17\<close> the
  modulus is the double \<open>10 ^ 17\<close>, its arc tangent rounds to the double
  nearest to \<open>pi / 2\<close>, and the product with the double \<^verbatim>\<open>2/np.pi\<close> rounds
  to 1: the brightness is exactly 1.
\<close>

theorem brightness_one_counterexample:
  "snd (colors [[10 ^ 17]]) ! 0 ! 0 = 1 \<and>
   \<not> snd (colors [[10 ^ 17]]) ! 0 ! 0 < 1 \<and>
   snd (colors [[10 ^ 17]]) ! 0 ! 0 \<noteq> 2 / pi * arctan (cmod (10 ^ 17))"
proof -
  have "snd (colors [[10 ^ 17]]) ! 0 ! 0 = value_of (10 ^ 17)"
    by (simp add: colors_def)
  then have v: "snd (colors [[10 ^ 17]]) ! 0 ! 0 = 1"
    by (simp only: value_of_big)
  have "arctan (cmod (10 ^ 17)) < pi / 2"
    by (rule arctan_ubound)
  then have "2 / pi * arctan (cmod (10 ^ 17)) < 1"
    by (simp add: field_simps)
  with v show ?thesis
    by simp
qed

text \<open>
  C8, amended: the two arrays returned by \<^verbatim>\<open>colors\<close> have the shape of the
  input. At every position, for the sample \<open>z\<close> there, the hue (in exact
  arithmetic) is \<open>((angle(z) + 2 pi) mod 2 pi) / (2 pi)\<close>, the remainder being
  \<open>x - y * floor(x / y)\<close>, and lies in the interval from 0 (included) to 1
  (excluded); the brightness is \<open>(2 / pi) * atan(|z|)\<close> evaluated in double
  precision, differs from the exact \<open>(2 / pi) * atan(|z|)\<close> by at most
  \<open>2 ^ (- 48)\<close>, and lies in the interval from 0 to 1, both included.
\<close>

theorem colors_ranges:
  assumes "colors func_val = (hue, value)"
  shows "length hue = length func_val \<and> length value = length func_val \<and>
         (\<forall>y < length func_val.
            length (hue ! y) = length (func_val ! y) \<and>
            length (value ! y) = length (func_val ! y) \<and>
            (\<forall>x < length (func_val ! y).
               hue ! y ! x =
                 (Arg (func_val ! y ! x) + 2 * pi -
                    2 * pi * of_int \<lfloor>(Arg (func_val ! y ! x) + 2 * pi) / (2 * pi)\<rfloor>) / (2 * pi) \<and>
               value ! y ! x =
                 to_double (to_double (2 / np_pi) *
                   to_double (arctan (to_double (cmod (func_val ! y ! x))))) \<and>
               \<bar>value ! y ! x - 2 / pi * arctan (cmod (func_val ! y ! x))\<bar> \<le> 1 / 2 ^ 48 \<and>
               0 \<le> hue ! y ! x \<and> hue ! y ! x < 1 \<and>
               0 \<le> value ! y ! x \<and> value ! y ! x \<le> 1))"
proof -
  from assms have h: "hue = map (map hue_of) func_val" and v: "value = map (map value_of) func_val"
    by (simp_all add: colors_def)
  have cell: "hue ! y ! x = hue_of (func_val ! y ! x) \<and> value ! y ! x = value_of (func_val ! y ! x)"
    if "y < length func_val" and "x < length (func_val ! y)" for y x
    using that by (simp add: h v)
  have rows: "length (hue ! y) = length (func_val ! y) \<and> length (value ! y) = length (func_val ! y)"
    if "y < length func_val" for y
    using that by (simp add: h v)
  have len: "length hue = length func_val \<and> length value = length func_val"
    by (simp add: h v)
  have main: "hue ! y ! x =
          (Arg (func_val ! y ! x) + 2 * pi -
             2 * pi * of_int \<lfloor>(Arg (func_val ! y ! x) + 2 * pi) / (2 * pi)\<rfloor>) / (2 * pi) \<and>
        value ! y ! x =
          to_double (to_double (2 / np_pi) *
            to_double (arctan (to_double (cmod (func_val ! y ! x))))) \<and>
        \<bar>value ! y ! x - 2 / pi * arctan (cmod (func_val ! y ! x))\<bar> \<le> 1 / 2 ^ 48 \<and>
        0 \<le> hue ! y ! x \<and> hue ! y ! x < 1 \<and> 0 \<le> value ! y ! x \<and> value ! y ! x \<le> 1"
    if "y < length func_val" and "x < length (func_val ! y)" for y x
  proof -
    let ?z = "func_val ! y ! x"
    from cell [OF that] have hz: "hue ! y ! x = hue_of ?z" and vz: "value ! y ! x = value_of ?z"
      by simp_all
    have "hue_of ?z = (Arg ?z + 2 * pi - 2 * pi * of_int \<lfloor>(Arg ?z + 2 * pi) / (2 * pi)\<rfloor>) / (2 * pi)"
      by (simp only: hue_of_def py_mod_def)
    moreover have "value_of ?z =
        to_double (to_double (2 / np_pi) * to_double (arctan (to_double (cmod ?z))))"
      by (simp only: value_of_def)
    ultimately show ?thesis
      using hue_of_range [of ?z] value_of_range [of ?z] value_of_error [of ?z]
      unfolding hz vz by simp
  qed
  show ?thesis
    using len rows main by blast
qed

theorem colors_ranges_witness:
  "colors [[0, \<i>, - \<i>, 10 ^ 17]] =
     ([[hue_of 0, hue_of \<i>, hue_of (- \<i>), hue_of (10 ^ 17)]],
      [[value_of 0, value_of \<i>, value_of (- \<i>), value_of (10 ^ 17)]]) \<and>
   length (fst (colors [[0, \<i>, - \<i>, 10 ^ 17]])) = 1 \<and>
   fst (colors [[0, \<i>, - \<i>, 10 ^ 17]]) ! 0 ! 0 = 0 \<and>
   fst (colors [[0, \<i>, - \<i>, 10 ^ 17]]) ! 0 ! 1 = 1 / 4 \<and>
   fst (colors [[0, \<i>, - \<i>, 10 ^ 17]]) ! 0 ! 2 = 3 / 4 \<and>
   snd (colors [[0, \<i>, - \<i>, 10 ^ 17]]) ! 0 ! 0 = 0 \<and>
   \<bar>snd (colors [[0, \<i>, - \<i>, 10 ^ 17]]) ! 0 ! 1 - 1 / 2\<bar> \<le> 1 / 2 ^ 48 \<and>
   snd (colors [[0, \<i>, - \<i>, 10 ^ 17]]) ! 0 ! 3 = 1 \<and>
   snd (colors [[0, \<i>, - \<i>, 10 ^ 17]]) ! 0 ! 3 \<le> 1"
proof -
  let ?H = "[[hue_of 0, hue_of \<i>, hue_of (- \<i>), hue_of (10 ^ 17)]]"
  let ?V = "[[value_of 0, value_of \<i>, value_of (- \<i>), value_of (10 ^ 17)]]"
  have c: "colors [[0, \<i>, - \<i>, 10 ^ 17]] = (?H, ?V)"
    by (simp add: colors_def)
  have h0: "hue_of 0 = 0" and h1: "hue_of \<i> = 1 / 4" and h2: "hue_of (- \<i>) = 3 / 4"
    using pi_gt_zero by (simp_all add: hue_of_eq Arg_zero not_le field_simps)
  have v0: "value_of 0 = 0"
    by (rule value_of_zero)
  have v3: "value_of (10 ^ 17) = 1"
    by (rule value_of_big)
  have e: "\<bar>?V ! 0 ! 1 - 2 / pi * arctan (cmod ([[0, \<i>, - \<i>, 10 ^ 17]] ! 0 ! 1))\<bar> \<le> 1 / 2 ^ 48"
    and r: "?V ! 0 ! 3 \<le> 1"
    using colors_ranges [OF c] by (auto simp add: All_less_Suc)
  from e have e1: "\<bar>value_of \<i> - 1 / 2\<bar> \<le> 1 / 2 ^ 48"
    by (simp add: arctan_one)
  show ?thesis
    unfolding c using h0 h1 h2 v0 v3 e1 r by simp
qed

section \<open>The winding numbers of the test functions\<close>

subsection \<open>The sum of the differences along a closed path\<close>

lemma winding_path_jump: "winding_path a b = a - b + jump a b"
  by (auto simp add: winding_path_def jump_def Let_def)

lemma for_each_sum:
  assumes "\<And>i w. i \<in> set xs \<Longrightarrow> body i w = Inr (w + g i)"
  shows "for_each xs body w = Inr (w + sum_list (map g xs))"
  using assms
proof (induction xs arbitrary: w)
  case Nil
  show ?case by simp
next
  case (Cons x xs)
  have "body x w = Inr (w + g x)"
    using Cons.prems by simp
  then have "for_each (x # xs) body w = for_each xs body (w + g x)"
    by simp
  also have "\<dots> = Inr (w + g x + sum_list (map g xs))"
    using Cons.prems by (intro Cons.IH) simp
  finally show ?case
    by (simp add: add.assoc)
qed

lemma range_sum:
  "sum_list (map g (range_py lo hi)) = (\<Sum>i \<in> {lo..hi - 1}. g i)"
  by (simp add: range_py_def interv_sum_list_conv_sum_set_int)

lemma telescope_int:
  fixes h :: "int \<Rightarrow> real"
  assumes "lo \<le> hi"
  shows "(\<Sum>i \<in> {lo..hi - 1}. h (i + 1) - h i) = h hi - h lo"
proof -
  have "(\<Sum>i \<in> {lo..lo + int n - 1}. h (i + 1) - h i) = h (lo + int n) - h lo" for n
  proof (induction n)
    case 0
    show ?case by simp
  next
    case (Suc n)
    have "{lo..lo + int (Suc n) - 1} = insert (lo + int n) {lo..lo + int n - 1}"
      by auto
    then show ?case
      using Suc by (simp add: add.commute add.left_commute)
  qed
  from this [of "nat (hi - lo)"] assms show ?thesis
    by simp
qed

lemma winding_sum_jumps:
  assumes x: "x1 \<le> x2" and y: "y1 \<le> y2"
    and rd: "\<And>i j. x1 \<le> i \<Longrightarrow> i \<le> x2 \<Longrightarrow> y1 \<le> j \<Longrightarrow> j \<le> y2 \<Longrightarrow> at2 hue j i = Inr (H i j)"
  shows "winding_sum hue ((x1, y1), (x2, y2)) =
     Inr ((\<Sum>i \<in> {x1..x2 - 1}. jump (H (i + 1) y2) (H i y2)) +
          (\<Sum>i \<in> {x1..x2 - 1}. jump (H i y1) (H (i + 1) y1)) +
          (\<Sum>j \<in> {y1..y2 - 1}. jump (H x2 j) (H x2 (j + 1))) +
          (\<Sum>j \<in> {y1..y2 - 1}. jump (H x1 (j + 1)) (H x1 j)))"
proof -
  define gr where "gr i = winding_path (H (i + 1) y2) (H i y2) + winding_path (H i y1) (H (i + 1) y1)" for i
  define gc where "gc j = winding_path (H x2 j) (H x2 (j + 1)) + winding_path (H x1 (j + 1)) (H x1 j)" for j
  have rows: "wind_rows hue y1 y2 i w = Inr (w + gr i)" if "i \<in> set (range_py x1 x2)" for i w
  proof -
    from that have "x1 \<le> i" "i + 1 \<le> x2" by (auto simp add: range_py_def)
    then show ?thesis
      using y by (simp add: wind_rows_def rd gr_def add.assoc)
  qed
  have cols: "wind_cols hue x1 x2 j w = Inr (w + gc j)" if "j \<in> set (range_py y1 y2)" for j w
  proof -
    from that have "y1 \<le> j" "j + 1 \<le> y2" by (auto simp add: range_py_def)
    then show ?thesis
      using x by (simp add: wind_cols_def rd gc_def add.assoc)
  qed
  have n: "normalize ((x1, y1), (x2, y2)) = ((x1, y1), (x2, y2))"
    using x y by (simp add: normalize_def)
  have "winding_sum hue ((x1, y1), (x2, y2)) =
      Inr ((\<Sum>i \<in> {x1..x2 - 1}. gr i) + (\<Sum>j \<in> {y1..y2 - 1}. gc j))"
    unfolding winding_sum_def n
    by (simp add: for_each_sum [where g = gr, OF rows] for_each_sum [where g = gc, OF cols] range_sum)
  moreover have "(\<Sum>i \<in> {x1..x2 - 1}. gr i) =
      (H x2 y2 - H x1 y2) + (\<Sum>i \<in> {x1..x2 - 1}. jump (H (i + 1) y2) (H i y2)) +
      (H x1 y1 - H x2 y1) + (\<Sum>i \<in> {x1..x2 - 1}. jump (H i y1) (H (i + 1) y1))"
  proof -
    have "(\<Sum>i \<in> {x1..x2 - 1}. gr i) =
        (\<Sum>i \<in> {x1..x2 - 1}. H (i + 1) y2 - H i y2) +
        (\<Sum>i \<in> {x1..x2 - 1}. jump (H (i + 1) y2) (H i y2)) -
        (\<Sum>i \<in> {x1..x2 - 1}. H (i + 1) y1 - H i y1) +
        (\<Sum>i \<in> {x1..x2 - 1}. jump (H i y1) (H (i + 1) y1))"
      by (simp add: gr_def winding_path_jump sum.distrib sum_subtractf algebra_simps)
    then show ?thesis
      by (simp add: telescope_int [OF x, of "\<lambda>i. H i y2"] telescope_int [OF x, of "\<lambda>i. H i y1"])
  qed
  moreover have "(\<Sum>j \<in> {y1..y2 - 1}. gc j) =
      (H x2 y1 - H x2 y2) + (\<Sum>j \<in> {y1..y2 - 1}. jump (H x2 j) (H x2 (j + 1))) +
      (H x1 y2 - H x1 y1) + (\<Sum>j \<in> {y1..y2 - 1}. jump (H x1 (j + 1)) (H x1 j))"
  proof -
    have "(\<Sum>j \<in> {y1..y2 - 1}. gc j) =
        (\<Sum>j \<in> {y1..y2 - 1}. jump (H x2 j) (H x2 (j + 1))) -
        (\<Sum>j \<in> {y1..y2 - 1}. H x2 (j + 1) - H x2 j) +
        (\<Sum>j \<in> {y1..y2 - 1}. H x1 (j + 1) - H x1 j) +
        (\<Sum>j \<in> {y1..y2 - 1}. jump (H x1 (j + 1)) (H x1 j))"
      by (simp add: gc_def winding_path_jump sum.distrib sum_subtractf algebra_simps)
    then show ?thesis
      by (simp add: telescope_int [OF y, of "\<lambda>j. H x2 j"] telescope_int [OF y, of "\<lambda>j. H x1 j"])
  qed
  ultimately show ?thesis
    by simp
qed

subsection \<open>The hue in the half planes and octants\<close>

lemma Arg_nonneg:
  assumes "0 \<le> Im w"
  shows "0 \<le> Arg w"
proof (cases "w = 0")
  case True
  then show ?thesis by (simp add: Arg_zero)
next
  case False
  then have s: "sin (Arg w) = Im w / cmod w" by (rule sin_Arg)
  from False have "0 < cmod w" by simp
  with assms s have nn: "0 \<le> sin (Arg w)" by simp
  show ?thesis
  proof (rule ccontr)
    assume "\<not> 0 \<le> Arg w"
    then have "0 < - Arg w" "- Arg w < pi"
      using Arg_bounded [of w] by simp_all
    then have "0 < sin (- Arg w)" by (rule sin_gt_zero)
    with nn show False by simp
  qed
qed

lemma Arg_neg:
  assumes "Im w < 0"
  shows "Arg w < 0"
proof -
  from assms have nz: "w \<noteq> 0" by auto
  then have s: "sin (Arg w) = Im w / cmod w" by (rule sin_Arg)
  from nz have "0 < cmod w" by simp
  with assms s have neg: "sin (Arg w) < 0" by (simp add: divide_neg_pos)
  show ?thesis
  proof (rule ccontr)
    assume "\<not> Arg w < 0"
    then have "0 \<le> Arg w" "Arg w \<le> pi"
      using Arg_bounded [of w] by simp_all
    then have "0 \<le> sin (Arg w)" by (rule sin_ge_zero)
    with neg show False by simp
  qed
qed

lemma hue_upper: "0 \<le> Im w \<Longrightarrow> 0 \<le> hue_of w \<and> hue_of w \<le> 1 / 2"
  using Arg_nonneg [of w] Arg_bounded [of w] pi_gt_zero
  by (simp add: hue_of_eq field_simps; linarith)

lemma hue_lower: "Im w < 0 \<Longrightarrow> 1 / 2 < hue_of w \<and> hue_of w < 1"
  using Arg_neg [of w] Arg_bounded [of w] pi_gt_zero
  by (simp add: hue_of_eq field_simps; linarith)

lemma cmod_le_sqrt2:
  assumes "\<bar>Im w\<bar> \<le> \<bar>Re w\<bar>"
  shows "cmod w \<le> sqrt 2 * \<bar>Re w\<bar>"
proof -
  have "(Im w)\<^sup>2 \<le> (Re w)\<^sup>2"
    using assms by (simp add: abs_le_square_iff)
  then have "(Re w)\<^sup>2 + (Im w)\<^sup>2 \<le> 2 * (Re w)\<^sup>2" by simp
  then have "sqrt ((Re w)\<^sup>2 + (Im w)\<^sup>2) \<le> sqrt (2 * (Re w)\<^sup>2)"
    by (rule real_sqrt_le_mono)
  then show ?thesis
    by (simp add: cmod_def real_sqrt_mult)
qed

lemma cos_Arg_right:
  assumes "0 < Re w" and "\<bar>Im w\<bar> \<le> Re w"
  shows "cos (pi / 4) \<le> cos (Arg w)"
proof -
  from assms have nz: "w \<noteq> 0" by auto
  then have c: "cos (Arg w) = Re w / cmod w" by (rule cos_Arg)
  from nz have p: "0 < cmod w" by simp
  have "cmod w \<le> sqrt 2 * Re w"
    using cmod_le_sqrt2 [of w] assms by simp
  then have "cmod w * (sqrt 2 / 2) \<le> sqrt 2 * Re w * (sqrt 2 / 2)"
    by (rule mult_right_mono) simp
  also have "sqrt 2 * Re w * (sqrt 2 / 2) = Re w"
    by simp
  finally have "cmod w * (sqrt 2 / 2) \<le> Re w" .
  then have "sqrt 2 / 2 \<le> Re w / cmod w"
    using p by (simp add: field_simps)
  then show ?thesis
    by (simp add: c cos_45)
qed


lemma cos_Arg_left:
  assumes "Re w < 0" and "\<bar>Im w\<bar> \<le> - Re w"
  shows "cos (Arg w) \<le> cos (3 * pi / 4)"
proof -
  from assms have nz: "w \<noteq> 0" by auto
  then have c: "cos (Arg w) = Re w / cmod w" by (rule cos_Arg)
  from nz have p: "0 < cmod w" by simp
  have "cmod w \<le> sqrt 2 * (- Re w)"
    using cmod_le_sqrt2 [of w] assms by simp
  then have "cmod w * (sqrt 2 / 2) \<le> sqrt 2 * (- Re w) * (sqrt 2 / 2)"
    by (rule mult_right_mono) simp
  also have "sqrt 2 * (- Re w) * (sqrt 2 / 2) = - Re w"
    by simp
  finally have "cmod w * (sqrt 2 / 2) \<le> - Re w" .
  then have "Re w / cmod w \<le> - (sqrt 2 / 2)"
    using p by (simp add: field_simps)
  moreover have "cos (3 * pi / 4) = - (sqrt 2 / 2)"
  proof -
    have "cos (pi - pi / 4) = - cos (pi / 4)" by (rule cos_pi_minus)
    moreover have "pi - pi / 4 = 3 * pi / 4" by simp
    ultimately show ?thesis by (simp add: cos_45)
  qed
  ultimately show ?thesis
    by (simp add: c)
qed

lemma hue_right_up:
  assumes "0 < Re w" and "0 \<le> Im w" and "Im w \<le> Re w"
  shows "hue_of w < 3 / 10"
proof -
  have a0: "0 \<le> Arg w" using assms(2) by (rule Arg_nonneg)
  have a1: "Arg w \<le> pi" using Arg_bounded [of w] by simp
  have "cos (pi / 4) \<le> cos (Arg w)"
    using assms by (intro cos_Arg_right) simp_all
  then have "Arg w \<le> pi / 4"
    using a0 a1 pi_gt_zero by (subst (asm) cos_mono_le_eq) simp_all
  then show ?thesis
    using a0 pi_gt_zero by (simp add: hue_of_eq field_simps; insert pi_gt_zero; linarith)
qed

lemma hue_right_down:
  assumes "0 < Re w" and "Im w < 0" and "- Re w \<le> Im w"
  shows "7 / 10 < hue_of w"
proof -
  have a0: "Arg w < 0" using assms(2) by (rule Arg_neg)
  have a1: "- pi < Arg w" using Arg_bounded [of w] by simp
  have "cos (pi / 4) \<le> cos (- Arg w)"
    using assms cos_Arg_right [of w] by simp
  then have "- Arg w \<le> pi / 4"
    using a0 a1 pi_gt_zero by (subst (asm) cos_mono_le_eq) simp_all
  then show ?thesis
    using a0 pi_gt_zero by (simp add: hue_of_eq field_simps; insert pi_gt_zero; linarith)
qed

lemma hue_left:
  assumes "Re w < 0" and "\<bar>Im w\<bar> \<le> - Re w"
  shows "3 / 10 \<le> hue_of w \<and> hue_of w \<le> 7 / 10"
proof (cases "0 \<le> Im w")
  case True
  have a0: "0 \<le> Arg w" using True by (rule Arg_nonneg)
  have a1: "Arg w \<le> pi" using Arg_bounded [of w] by simp
  have "cos (Arg w) \<le> cos (3 * pi / 4)"
    using assms by (rule cos_Arg_left)
  then have "3 * pi / 4 \<le> Arg w"
    using a0 a1 pi_gt_zero by (subst (asm) cos_mono_le_eq) simp_all
  then show ?thesis
    using a0 a1 pi_gt_zero by (simp add: hue_of_eq field_simps; insert pi_gt_zero; linarith)
next
  case False
  then have a0: "Arg w < 0" by (intro Arg_neg) simp
  have a1: "- pi < Arg w" using Arg_bounded [of w] by simp
  have "cos (- Arg w) \<le> cos (3 * pi / 4)"
    using assms cos_Arg_left [of w] by simp
  then have "3 * pi / 4 \<le> - Arg w"
    using a0 a1 pi_gt_zero by (subst (asm) cos_mono_le_eq) simp_all
  then show ?thesis
    using a0 a1 pi_gt_zero by (simp add: hue_of_eq field_simps; insert pi_gt_zero; linarith)
qed

lemma jump_same_side:
  assumes "0 \<le> Im a \<longleftrightarrow> 0 \<le> Im b"
  shows "jump (hue_of a) (hue_of b) = 0"
proof (cases "0 \<le> Im a")
  case True
  with assms have "0 \<le> Im b" by simp
  with True show ?thesis
    using hue_upper [of a] hue_upper [of b] by (simp add: jump_def)
next
  case False
  with assms have "Im b < 0" "Im a < 0" by simp_all
  then show ?thesis
    using hue_lower [of a] hue_lower [of b] by (simp add: jump_def)
qed

lemma jump_forward:
  assumes "0 < Re b" and "Im b < 0" and "- Re b \<le> Im b"
    and "0 < Re a" and "0 \<le> Im a" and "Im a \<le> Re a"
  shows "jump (hue_of a) (hue_of b) = 1"
  using hue_right_down [OF assms(1-3)] hue_right_up [OF assms(4-6)]
  by (simp add: jump_def)

lemma jump_from_left:
  assumes "Re b < 0" and "\<bar>Im b\<bar> \<le> - Re b"
  shows "jump (hue_of a) (hue_of b) = 0"
  using hue_left [OF assms] by (simp add: jump_def)

lemma jump_to_left:
  assumes "Re a < 0" and "\<bar>Im a\<bar> \<le> - Re a"
  shows "jump (hue_of a) (hue_of b) = 0"
  using hue_left [OF assms] by (simp add: jump_def)

subsection \<open>The grid of the tests\<close>

lemma test_grid:
  "func_grid f (- 10, 10) (- 10, 10) (1 / 10) =
     Inr (map (\<lambda>r. map (\<lambda>c. f (pt (int c) (int r))) [0..<201]) [0..<201])"
proof -
  have re: "arange (- 10) (101 / 10) (1 / 10) = map (\<lambda>k. - 10 + real k * (1 / 10)) [0..<201]"
    by (simp add: arange_def)
  have im: "arange 10 (- (101 / 10)) (- (1 / 10)) = map (\<lambda>k. 10 + real k * (- (1 / 10))) [0..<201]"
    by (simp add: arange_def)
  have p: "pt (int c) (int r) = Complex (real c / 10 - 10) (10 - real r / 10)" for c r
    by (simp add: pt_def field_simps)
  show ?thesis
    by (simp add: func_grid_def Let_def re im p comp_def del: upt.simps map_eq_conv)
qed

lemma at2_test:
  assumes "0 \<le> x" and "x \<le> 200" and "0 \<le> y" and "y \<le> 200"
  shows "at2 (fst (colors (map (\<lambda>r. map (\<lambda>c. f (pt (int c) (int r))) [0..<201]) [0..<201]))) y x =
           Inr (hue_of (f (pt x y)))"
proof -
  have ny: "nat y < 201" and nx: "nat x < 201"
    using assms by simp_all
  show ?thesis
    using assms nx ny by (simp add: at2_def item_def colors_def del: upt.simps)
qed

lemma winding_test_jumps:
  assumes "0 \<le> x1" and "x1 \<le> 200"
  shows "winding_test f ((x1, 0), (200, 200)) =
     Inr (py_round
       ((\<Sum>i \<in> {x1..199}. jump (hue_of (f (pt (i + 1) 200))) (hue_of (f (pt i 200)))) +
        (\<Sum>i \<in> {x1..199}. jump (hue_of (f (pt i 0))) (hue_of (f (pt (i + 1) 0)))) +
        (\<Sum>j \<in> {0..199}. jump (hue_of (f (pt 200 j))) (hue_of (f (pt 200 (j + 1))))) +
        (\<Sum>j \<in> {0..199}. jump (hue_of (f (pt x1 (j + 1)))) (hue_of (f (pt x1 j))))))"
proof -
  let ?hue = "fst (colors (map (\<lambda>r. map (\<lambda>c. f (pt (int c) (int r))) [0..<201]) [0..<201]))"
  have rd: "at2 ?hue j i = Inr (hue_of (f (pt i j)))"
    if "x1 \<le> i" "i \<le> 200" "0 \<le> j" "j \<le> 200" for i j
    using that assms by (intro at2_test) simp_all
  have "winding_sum ?hue ((x1, 0), (200, 200)) =
     Inr ((\<Sum>i \<in> {x1..200 - 1}. jump (hue_of (f (pt (i + 1) 200))) (hue_of (f (pt i 200)))) +
        (\<Sum>i \<in> {x1..200 - 1}. jump (hue_of (f (pt i 0))) (hue_of (f (pt (i + 1) 0)))) +
        (\<Sum>j \<in> {0..200 - 1}. jump (hue_of (f (pt 200 j))) (hue_of (f (pt 200 (j + 1))))) +
        (\<Sum>j \<in> {0..200 - 1}. jump (hue_of (f (pt x1 (j + 1)))) (hue_of (f (pt x1 j)))))"
    using assms(2) by (intro winding_sum_jumps [where H = "\<lambda>i j. hue_of (f (pt i j))"] rd) simp_all
  then show ?thesis
    by (simp add: winding_test_def test_grid winding_num_def del: upt.simps)
qed

lemma sum_single:
  fixes g :: "int \<Rightarrow> real"
  assumes "lo \<le> c" and "c \<le> hi"
    and "\<And>i. lo \<le> i \<Longrightarrow> i \<le> hi \<Longrightarrow> i \<noteq> c \<Longrightarrow> g i = 0"
  shows "(\<Sum>i \<in> {lo..hi}. g i) = g c"
proof -
  have "(\<Sum>i \<in> {lo..hi}. g i) = (\<Sum>i \<in> {lo..hi}. if i = c then g c else 0)"
    by (rule sum.cong) (auto simp add: assms(3))
  also have "\<dots> = g c"
    using assms(1,2) by (simp add: sum.delta)
  finally show ?thesis .
qed

lemma sum_none:
  fixes g :: "int \<Rightarrow> real"
  assumes "\<And>i. lo \<le> i \<Longrightarrow> i \<le> hi \<Longrightarrow> g i = 0"
  shows "(\<Sum>i \<in> {lo..hi}. g i) = 0"
  by (rule sum.neutral) (auto simp add: assms)

lemma Re_pt: "Re (pt i j) = (of_int i - 100) / 10" and Im_pt: "Im (pt i j) = (100 - of_int j) / 10"
  by (simp_all add: pt_def)

lemma py_round_int: "py_round (of_int n) = n"
  by (simp add: py_round_def)

subsection \<open>The identity\<close>

lemma id_bottom: "(\<Sum>i \<in> {x1..199}. jump (hue_of (pt (i + 1) 200)) (hue_of (pt i 200))) = 0"
  by (rule sum_none) (simp add: jump_same_side Im_pt)

lemma id_top: "(\<Sum>i \<in> {x1..199}. jump (hue_of (pt i 0)) (hue_of (pt (i + 1) 0))) = 0"
  by (rule sum_none) (simp add: jump_same_side Im_pt)

lemma id_right: "(\<Sum>j \<in> {0..199}. jump (hue_of (pt 200 j)) (hue_of (pt 200 (j + 1)))) = 1"
proof -
  have "(\<Sum>j \<in> {0..199}. jump (hue_of (pt 200 j)) (hue_of (pt 200 (j + 1)))) =
      jump (hue_of (pt 200 100)) (hue_of (pt 200 (100 + 1)))"
  proof (rule sum_single)
    fix j :: int
    assume "0 \<le> j" "j \<le> 199" "j \<noteq> 100"
    then have "(0 \<le> Im (pt 200 j)) = (0 \<le> Im (pt 200 (j + 1)))"
      by (auto simp add: Im_pt)
    then show "jump (hue_of (pt 200 j)) (hue_of (pt 200 (j + 1))) = 0"
      by (rule jump_same_side)
  qed simp_all
  also have "\<dots> = 1"
    by (rule jump_forward) (simp_all add: Re_pt Im_pt)
  finally show ?thesis .
qed

lemma id_left: "(\<Sum>j \<in> {0..199}. jump (hue_of (pt 0 (j + 1))) (hue_of (pt 0 j))) = 0"
proof (rule sum_none)
  fix j :: int
  assume j: "0 \<le> j" "j \<le> 199"
  show "jump (hue_of (pt 0 (j + 1))) (hue_of (pt 0 j)) = 0"
  proof (cases "j = 100")
    case True
    show ?thesis
      unfolding True by (rule jump_from_left) (simp_all add: Re_pt Im_pt)
  next
    case False
    with j have "(0 \<le> Im (pt 0 (j + 1))) = (0 \<le> Im (pt 0 j))"
      by (auto simp add: Im_pt)
    then show ?thesis
      by (rule jump_same_side)
  qed
qed

lemma winding_id: "winding_test (\<lambda>z. z) ((0, 0), (200, 200)) = Inr 1"
proof -
  have "winding_test (\<lambda>z. z) ((0, 0), (200, 200)) = Inr (py_round (of_int 1))"
    by (simp add: winding_test_jumps id_bottom id_top id_right id_left)
  then show ?thesis
    by (simp only: py_round_int)
qed

subsection \<open>The square\<close>

lemma Im_sq_pt: "Im ((pt i j)\<^sup>2) = (of_int i - 100) * (100 - of_int j) / 50"
  by (simp add: Im_power2 Re_pt Im_pt)

lemma Re_sq_pt:
  "Re ((pt i j)\<^sup>2) =
     (of_int i - 100) / 10 * ((of_int i - 100) / 10) - (100 - of_int j) / 10 * ((100 - of_int j) / 10)"
  by (simp add: Re_power2 Re_pt Im_pt power2_eq_square)

lemma sq_bottom:
  "(\<Sum>i \<in> {0..199}. jump (hue_of ((pt (i + 1) 200)\<^sup>2)) (hue_of ((pt i 200)\<^sup>2))) = 0"
proof (rule sum_none)
  fix i :: int
  assume i: "0 \<le> i" "i \<le> 199"
  show "jump (hue_of ((pt (i + 1) 200)\<^sup>2)) (hue_of ((pt i 200)\<^sup>2)) = 0"
  proof (cases "i = 100")
    case True
    show ?thesis
      unfolding True by (rule jump_from_left) (simp_all add: Re_sq_pt Im_sq_pt)
  next
    case False
    with i have "(0 \<le> Im ((pt (i + 1) 200)\<^sup>2)) = (0 \<le> Im ((pt i 200)\<^sup>2))"
      by (auto simp add: Im_sq_pt)
    then show ?thesis
      by (rule jump_same_side)
  qed
qed

lemma sq_top:
  "(\<Sum>i \<in> {0..199}. jump (hue_of ((pt i 0)\<^sup>2)) (hue_of ((pt (i + 1) 0)\<^sup>2))) = 0"
proof (rule sum_none)
  fix i :: int
  assume i: "0 \<le> i" "i \<le> 199"
  show "jump (hue_of ((pt i 0)\<^sup>2)) (hue_of ((pt (i + 1) 0)\<^sup>2)) = 0"
  proof (cases "i = 99")
    case True
    show ?thesis
      unfolding True by (rule jump_from_left) (simp_all add: Re_sq_pt Im_sq_pt)
  next
    case False
    with i have "(0 \<le> Im ((pt i 0)\<^sup>2)) = (0 \<le> Im ((pt (i + 1) 0)\<^sup>2))"
      by (auto simp add: Im_sq_pt)
    then show ?thesis
      by (rule jump_same_side)
  qed
qed

lemma sq_right:
  "(\<Sum>j \<in> {0..199}. jump (hue_of ((pt 200 j)\<^sup>2)) (hue_of ((pt 200 (j + 1))\<^sup>2))) = 1"
proof -
  have "(\<Sum>j \<in> {0..199}. jump (hue_of ((pt 200 j)\<^sup>2)) (hue_of ((pt 200 (j + 1))\<^sup>2))) =
      jump (hue_of ((pt 200 100)\<^sup>2)) (hue_of ((pt 200 (100 + 1))\<^sup>2))"
  proof (rule sum_single)
    fix j :: int
    assume "0 \<le> j" "j \<le> 199" "j \<noteq> 100"
    then have "(0 \<le> Im ((pt 200 j)\<^sup>2)) = (0 \<le> Im ((pt 200 (j + 1))\<^sup>2))"
      by (auto simp add: Im_sq_pt)
    then show "jump (hue_of ((pt 200 j)\<^sup>2)) (hue_of ((pt 200 (j + 1))\<^sup>2)) = 0"
      by (rule jump_same_side)
  qed simp_all
  also have "\<dots> = 1"
    by (rule jump_forward) (simp_all add: Re_sq_pt Im_sq_pt)
  finally show ?thesis .
qed

lemma sq_left:
  "(\<Sum>j \<in> {0..199}. jump (hue_of ((pt 0 (j + 1))\<^sup>2)) (hue_of ((pt 0 j)\<^sup>2))) = 1"
proof -
  have "(\<Sum>j \<in> {0..199}. jump (hue_of ((pt 0 (j + 1))\<^sup>2)) (hue_of ((pt 0 j)\<^sup>2))) =
      jump (hue_of ((pt 0 (99 + 1))\<^sup>2)) (hue_of ((pt 0 99)\<^sup>2))"
  proof (rule sum_single)
    fix j :: int
    assume "0 \<le> j" "j \<le> 199" "j \<noteq> 99"
    then have "(0 \<le> Im ((pt 0 (j + 1))\<^sup>2)) = (0 \<le> Im ((pt 0 j)\<^sup>2))"
      by (auto simp add: Im_sq_pt)
    then show "jump (hue_of ((pt 0 (j + 1))\<^sup>2)) (hue_of ((pt 0 j)\<^sup>2)) = 0"
      by (rule jump_same_side)
  qed simp_all
  also have "\<dots> = 1"
    by (rule jump_forward) (simp_all add: Re_sq_pt Im_sq_pt)
  finally show ?thesis .
qed

lemma winding_sq: "winding_test (\<lambda>z. z\<^sup>2) ((0, 0), (200, 200)) = Inr 2"
proof -
  have "winding_test (\<lambda>z. z\<^sup>2) ((0, 0), (200, 200)) = Inr (py_round (of_int 2))"
    by (simp add: winding_test_jumps sq_bottom sq_top sq_right sq_left)
  then show ?thesis
    by (simp only: py_round_int)
qed

subsection \<open>The cube minus one\<close>

lemma Re_cube: "Re (z ^ 3 - 1) = Re z * Re z * Re z - 3 * Re z * Im z * Im z - 1"
  by (simp add: power3_eq_cube algebra_simps)

lemma Im_cube: "Im (z ^ 3 - 1) = 3 * Re z * Re z * Im z - Im z * Im z * Im z"
  by (simp add: power3_eq_cube algebra_simps)

lemma Re_cube_pt:
  "Re ((pt i j) ^ 3 - 1) =
     (of_int i - 100) / 10 * ((of_int i - 100) / 10) * ((of_int i - 100) / 10) -
     3 * ((of_int i - 100) / 10) * ((100 - of_int j) / 10) * ((100 - of_int j) / 10) - 1"
  by (simp only: Re_cube Re_pt Im_pt)

lemma Im_cube_pt:
  "Im ((pt i j) ^ 3 - 1) =
     3 * ((of_int i - 100) / 10) * ((of_int i - 100) / 10) * ((100 - of_int j) / 10) -
     (100 - of_int j) / 10 * ((100 - of_int j) / 10) * ((100 - of_int j) / 10)"
  by (simp only: Im_cube Re_pt Im_pt)

lemma square_bound:
  fixes k :: int
  shows "3 * (k * k) \<le> 10000 \<longleftrightarrow> - 57 \<le> k \<and> k \<le> 57"
proof
  assume a: "3 * (k * k) \<le> 10000"
  show "- 57 \<le> k \<and> k \<le> 57"
  proof (rule ccontr)
    assume "\<not> (- 57 \<le> k \<and> k \<le> 57)"
    then have "\<bar>58\<bar> \<le> \<bar>k\<bar>" by arith
    then have "(58 :: int)\<^sup>2 \<le> k\<^sup>2" by (simp only: abs_le_square_iff)
    with a show False by (simp add: power2_eq_square)
  qed
next
  assume "- 57 \<le> k \<and> k \<le> 57"
  then have "\<bar>k\<bar> \<le> \<bar>57\<bar>" by arith
  then have "k\<^sup>2 \<le> (57 :: int)\<^sup>2" by (simp only: abs_le_square_iff)
  then show "3 * (k * k) \<le> 10000" by (simp add: power2_eq_square)
qed

lemma real_square_bound:
  fixes i :: int
  shows "3 * ((of_int i - 100) * (of_int i - 100)) \<le> (10000 :: real) \<longleftrightarrow> 43 \<le> i \<and> i \<le> 157"
proof -
  have "3 * ((of_int i - 100) * (of_int i - 100)) \<le> (10000 :: real) \<longleftrightarrow>
      real_of_int (3 * ((i - 100) * (i - 100))) \<le> real_of_int 10000"
    by simp
  also have "\<dots> \<longleftrightarrow> 3 * ((i - 100) * (i - 100)) \<le> 10000"
    by (rule of_int_le_iff)
  also have "\<dots> \<longleftrightarrow> - 57 \<le> i - 100 \<and> i - 100 \<le> 57"
    by (rule square_bound)
  also have "\<dots> \<longleftrightarrow> 43 \<le> i \<and> i \<le> 157"
    by auto
  finally show ?thesis .
qed

lemma cube_bottom_sign: "0 \<le> Im ((pt i 200) ^ 3 - 1) \<longleftrightarrow> 43 \<le> i \<and> i \<le> 157"
proof -
  have e: "Im ((pt i 200) ^ 3 - 1) = (10000 - 3 * ((of_int i - 100) * (of_int i - 100))) / 10"
    unfolding Im_cube_pt by (simp add: field_simps)
  have "0 \<le> Im ((pt i 200) ^ 3 - 1) \<longleftrightarrow> 3 * ((of_int i - 100) * (of_int i - 100)) \<le> (10000 :: real)"
    unfolding e by simp
  then show ?thesis
    by (simp only: real_square_bound)
qed

lemma cube_top_sign: "0 \<le> Im ((pt i 0) ^ 3 - 1) \<longleftrightarrow> i \<le> 42 \<or> 158 \<le> i"
proof -
  have n: "3 * ((of_int i - 100) * (of_int i - 100)) \<noteq> (10000 :: real)"
  proof
    assume "3 * ((of_int i - 100) * (of_int i - 100)) = (10000 :: real)"
    then have "real_of_int (3 * ((i - 100) * (i - 100))) = real_of_int 10000" by simp
    then have "3 * ((i - 100) * (i - 100)) = 10000" by (simp only: of_int_eq_iff)
    then have "(3 * ((i - 100) * (i - 100))) mod 3 = 10000 mod 3" by simp
    then show False by simp
  qed
  have e: "Im ((pt i 0) ^ 3 - 1) = (3 * ((of_int i - 100) * (of_int i - 100)) - 10000) / 10"
    unfolding Im_cube_pt by (simp add: field_simps)
  have "0 \<le> Im ((pt i 0) ^ 3 - 1) \<longleftrightarrow> (10000 :: real) \<le> 3 * ((of_int i - 100) * (of_int i - 100))"
    unfolding e by simp
  also have "\<dots> \<longleftrightarrow> \<not> 3 * ((of_int i - 100) * (of_int i - 100)) \<le> (10000 :: real)"
    using n by linarith
  also have "\<dots> \<longleftrightarrow> i \<le> 42 \<or> 158 \<le> i"
    unfolding real_square_bound by auto
  finally show ?thesis .
qed

lemma cube_side_sign:
  assumes "0 \<le> j" and "j \<le> 200" and "i = 0 \<or> i = 200"
  shows "0 \<le> Im ((pt i j) ^ 3 - 1) \<longleftrightarrow> j \<le> 100"
proof -
  define y :: real where "y = (100 - of_int j) / 10"
  have yb: "- 10 \<le> y" "y \<le> 10"
    using assms by (simp_all add: y_def)
  then have "y * y \<le> 10 * 10"
    by (intro abs_le_square_iff [THEN iffD1, unfolded power2_eq_square]) simp
  then have pos: "0 < 300 - y * y" by simp
  have "Im ((pt i j) ^ 3 - 1) = y * (300 - y * y)"
    unfolding Im_cube_pt y_def [symmetric] using assms(3) by (auto simp add: algebra_simps)
  then have "0 \<le> Im ((pt i j) ^ 3 - 1) \<longleftrightarrow> 0 \<le> y"
    using pos by (simp add: zero_le_mult_iff)
  also have "\<dots> \<longleftrightarrow> j \<le> 100"
    by (simp add: y_def)
  finally show ?thesis .
qed

lemma cube_axis_sign: "0 \<le> Im ((pt 100 j) ^ 3 - 1) \<longleftrightarrow> 100 \<le> j"
proof -
  define y :: real where "y = (100 - of_int j) / 10"
  have "Im ((pt 100 j) ^ 3 - 1) = - (y * y * y)"
    unfolding Im_cube_pt y_def [symmetric] by simp
  then have "0 \<le> Im ((pt 100 j) ^ 3 - 1) \<longleftrightarrow> y * y * y \<le> 0"
    by simp
  also have "\<dots> \<longleftrightarrow> y \<le> 0"
  proof
    assume a: "y * y * y \<le> 0"
    show "y \<le> 0"
    proof (rule ccontr)
      assume "\<not> y \<le> 0"
      then have "0 < y" by simp
      then have "0 < y * y * y" by simp
      with a show False by simp
    qed
  next
    assume "y \<le> 0"
    moreover have "0 \<le> y * y" by simp
    ultimately show "y * y * y \<le> 0"
      by (simp add: mult_nonneg_nonpos)
  qed
  also have "\<dots> \<longleftrightarrow> 100 \<le> j"
    by (simp add: y_def)
  finally show ?thesis .
qed

lemma cube_bottom_term:
  assumes "0 \<le> i" and "i \<le> 199" and "i \<noteq> 42"
  shows "jump (hue_of ((pt (i + 1) 200) ^ 3 - 1)) (hue_of ((pt i 200) ^ 3 - 1)) = 0"
proof (cases "i = 157")
  case True
  show ?thesis
    unfolding True by (rule jump_from_left; unfold Re_cube_pt Im_cube_pt; simp)
next
  case False
  with assms have "(0 \<le> Im ((pt (i + 1) 200) ^ 3 - 1)) = (0 \<le> Im ((pt i 200) ^ 3 - 1))"
    unfolding cube_bottom_sign by auto
  then show ?thesis
    by (rule jump_same_side)
qed

lemma cube_bottom:
  "(\<Sum>i \<in> {0..199}. jump (hue_of ((pt (i + 1) 200) ^ 3 - 1)) (hue_of ((pt i 200) ^ 3 - 1))) = 1"
proof -
  have "(\<Sum>i \<in> {0..199}. jump (hue_of ((pt (i + 1) 200) ^ 3 - 1)) (hue_of ((pt i 200) ^ 3 - 1))) =
      jump (hue_of ((pt (42 + 1) 200) ^ 3 - 1)) (hue_of ((pt 42 200) ^ 3 - 1))"
    by (rule sum_single) (simp_all add: cube_bottom_term)
  also have "\<dots> = 1"
    by (rule jump_forward; unfold Re_cube_pt Im_cube_pt; simp)
  finally show ?thesis .
qed

lemma cube_bottom_half:
  "(\<Sum>i \<in> {100..199}. jump (hue_of ((pt (i + 1) 200) ^ 3 - 1)) (hue_of ((pt i 200) ^ 3 - 1))) = 0"
  by (rule sum_none) (simp add: cube_bottom_term)

lemma cube_top_term:
  assumes "0 \<le> i" and "i \<le> 199" and "i \<noteq> 42"
  shows "jump (hue_of ((pt i 0) ^ 3 - 1)) (hue_of ((pt (i + 1) 0) ^ 3 - 1)) = 0"
proof (cases "i = 157")
  case True
  show ?thesis
    unfolding True by (rule jump_to_left; unfold Re_cube_pt Im_cube_pt; simp)
next
  case False
  with assms have "(0 \<le> Im ((pt i 0) ^ 3 - 1)) = (0 \<le> Im ((pt (i + 1) 0) ^ 3 - 1))"
    unfolding cube_top_sign by auto
  then show ?thesis
    by (rule jump_same_side)
qed

lemma cube_top:
  "(\<Sum>i \<in> {0..199}. jump (hue_of ((pt i 0) ^ 3 - 1)) (hue_of ((pt (i + 1) 0) ^ 3 - 1))) = 1"
proof -
  have "(\<Sum>i \<in> {0..199}. jump (hue_of ((pt i 0) ^ 3 - 1)) (hue_of ((pt (i + 1) 0) ^ 3 - 1))) =
      jump (hue_of ((pt 42 0) ^ 3 - 1)) (hue_of ((pt (42 + 1) 0) ^ 3 - 1))"
    by (rule sum_single) (simp_all add: cube_top_term)
  also have "\<dots> = 1"
    by (rule jump_forward; unfold Re_cube_pt Im_cube_pt; simp)
  finally show ?thesis .
qed

lemma cube_top_half:
  "(\<Sum>i \<in> {100..199}. jump (hue_of ((pt i 0) ^ 3 - 1)) (hue_of ((pt (i + 1) 0) ^ 3 - 1))) = 0"
  by (rule sum_none) (simp add: cube_top_term)

lemma cube_right:
  "(\<Sum>j \<in> {0..199}. jump (hue_of ((pt 200 j) ^ 3 - 1)) (hue_of ((pt 200 (j + 1)) ^ 3 - 1))) = 1"
proof -
  have "(\<Sum>j \<in> {0..199}. jump (hue_of ((pt 200 j) ^ 3 - 1)) (hue_of ((pt 200 (j + 1)) ^ 3 - 1))) =
      jump (hue_of ((pt 200 100) ^ 3 - 1)) (hue_of ((pt 200 (100 + 1)) ^ 3 - 1))"
  proof (rule sum_single)
    fix j :: int
    assume j: "0 \<le> j" "j \<le> 199" "j \<noteq> 100"
    have s1: "(0 \<le> Im ((pt 200 j) ^ 3 - 1)) = (j \<le> 100)"
      by (rule cube_side_sign) (use j in simp_all)
    have s2: "(0 \<le> Im ((pt 200 (j + 1)) ^ 3 - 1)) = (j + 1 \<le> 100)"
      by (rule cube_side_sign) (use j in simp_all)
    have "(0 \<le> Im ((pt 200 j) ^ 3 - 1)) = (0 \<le> Im ((pt 200 (j + 1)) ^ 3 - 1))"
      unfolding s1 s2 using j by auto
    then show "jump (hue_of ((pt 200 j) ^ 3 - 1)) (hue_of ((pt 200 (j + 1)) ^ 3 - 1)) = 0"
      by (rule jump_same_side)
  qed simp_all
  also have "\<dots> = 1"
    by (rule jump_forward; unfold Re_cube_pt Im_cube_pt; simp)
  finally show ?thesis .
qed

lemma cube_left:
  "(\<Sum>j \<in> {0..199}. jump (hue_of ((pt 0 (j + 1)) ^ 3 - 1)) (hue_of ((pt 0 j) ^ 3 - 1))) = 0"
proof (rule sum_none)
  fix j :: int
  assume j: "0 \<le> j" "j \<le> 199"
  show "jump (hue_of ((pt 0 (j + 1)) ^ 3 - 1)) (hue_of ((pt 0 j) ^ 3 - 1)) = 0"
  proof (cases "j = 100")
    case True
    show ?thesis
      unfolding True by (rule jump_from_left; unfold Re_cube_pt Im_cube_pt; simp)
  next
    case False
    have s1: "(0 \<le> Im ((pt 0 j) ^ 3 - 1)) = (j \<le> 100)"
      by (rule cube_side_sign) (use j in simp_all)
    have s2: "(0 \<le> Im ((pt 0 (j + 1)) ^ 3 - 1)) = (j + 1 \<le> 100)"
      by (rule cube_side_sign) (use j in simp_all)
    have "(0 \<le> Im ((pt 0 (j + 1)) ^ 3 - 1)) = (0 \<le> Im ((pt 0 j) ^ 3 - 1))"
      unfolding s1 s2 using j False by auto
    then show ?thesis
      by (rule jump_same_side)
  qed
qed

lemma cube_left_half:
  "(\<Sum>j \<in> {0..199}. jump (hue_of ((pt 100 (j + 1)) ^ 3 - 1)) (hue_of ((pt 100 j) ^ 3 - 1))) = 0"
proof (rule sum_none)
  fix j :: int
  assume j: "0 \<le> j" "j \<le> 199"
  show "jump (hue_of ((pt 100 (j + 1)) ^ 3 - 1)) (hue_of ((pt 100 j) ^ 3 - 1)) = 0"
  proof (cases "j = 99")
    case True
    show ?thesis
      unfolding True by (rule jump_from_left; unfold Re_cube_pt Im_cube_pt; simp)
  next
    case False
    with j have "(0 \<le> Im ((pt 100 (j + 1)) ^ 3 - 1)) = (0 \<le> Im ((pt 100 j) ^ 3 - 1))"
      unfolding cube_axis_sign by auto
    then show ?thesis
      by (rule jump_same_side)
  qed
qed

lemma winding_cube: "winding_test (\<lambda>z. z ^ 3 - 1) ((0, 0), (200, 200)) = Inr 3"
proof -
  have "winding_test (\<lambda>z. z ^ 3 - 1) ((0, 0), (200, 200)) = Inr (py_round (of_int 3))"
    by (simp add: winding_test_jumps cube_bottom cube_top cube_right cube_left)
  then show ?thesis
    by (simp only: py_round_int)
qed

lemma winding_cube_half: "winding_test (\<lambda>z. z ^ 3 - 1) ((100, 0), (200, 200)) = Inr 1"
proof -
  have "winding_test (\<lambda>z. z ^ 3 - 1) ((100, 0), (200, 200)) = Inr (py_round (of_int 1))"
    by (simp add: winding_test_jumps cube_bottom_half cube_top_half cube_right cube_left_half)
  then show ?thesis
    by (simp only: py_round_int)
qed

lemma shape_grid:
  assumes "0 < n"
  shows "shape (map (\<lambda>r. map (h r) [0..<m]) [0..<n]) = (int n, int m)"
proof -
  from assms have "[0..<n] = 0 # [Suc 0..<n]"
    by (simp add: upt_conv_Cons)
  then have "map (\<lambda>r. map (h r) [0..<m]) [0..<n] =
      map (h 0) [0..<m] # map (\<lambda>r. map (h r) [0..<m]) [Suc 0..<n]"
    by simp
  moreover have "length (map (\<lambda>r. map (h r) [0..<m]) [0..<n]) = n"
    by simp
  ultimately show ?thesis
    unfolding shape_def by (simp del: upt.simps)
qed

text \<open>
  C2: on the grid of 201 rows and 201 columns sampled on
  \<open>[-10, 10] \<times> [-10, 10]\<close> with the step 0.1, the winding number over the
  rectangle with the corners \<open>(0, 0)\<close> and \<open>(200, 200)\<close> is 1 for \<open>f(z) = z\<close>,
  2 for \<open>f(z) = z\<^sup>2\<close> and 3 for \<open>f(z) = z\<^sup>3 - 1\<close>, and for the last function
  it is 1 over the rectangle with the corners \<open>(100, 0)\<close> and \<open>(200, 200)\<close>.
\<close>

theorem winding_test_values:
  "map_sum id shape (func_grid f (- 10, 10) (- 10, 10) (1 / 10)) = Inr (201, 201) \<and>
   winding_test (\<lambda>z. z) ((0, 0), (200, 200)) = Inr 1 \<and>
   winding_test (\<lambda>z. z\<^sup>2) ((0, 0), (200, 200)) = Inr 2 \<and>
   winding_test (\<lambda>z. z ^ 3 - 1) ((0, 0), (200, 200)) = Inr 3 \<and>
   winding_test (\<lambda>z. z ^ 3 - 1) ((100, 0), (200, 200)) = Inr 1"
proof -
  have "shape (map (\<lambda>r. map (\<lambda>c. f (pt (int c) (int r))) [0..<201]) [0..<201]) = (int 201, int 201)"
    by (rule shape_grid) simp
  then have "map_sum id shape (func_grid f (- 10, 10) (- 10, 10) (1 / 10)) = Inr (201, 201)"
    unfolding test_grid by simp
  then show ?thesis
    using winding_id winding_sq winding_cube winding_cube_half by simp
qed

theorem winding_test_values_witness:
  "winding_test (\<lambda>z. z ^ 3 - 1) ((100, 0), (200, 200)) = Inr 1 \<and>
   map_sum id shape (func_grid (\<lambda>z. z) (- 10, 10) (- 10, 10) (1 / 10)) = Inr (201, 201)"
  using winding_test_values [of "\<lambda>z. z"] by simp

end
